theory Spec2Isabelle
  imports Main
begin

section \<open>JavaScript values, errors and user code\<close>

text \<open>
  The package is a thin layer over JavaScript objects: per-owner weak maps, accessor
  properties with a captured cache variable, frozen objects, bound functions. The
  embedding keeps these as an explicit store. Object identity is an address, so
  "the identical object" is equality of addresses.
\<close>

type_synonym addr = nat

datatype val =
    Undefined
  | Null
  | Bool bool
  | Num int
  | Str string
  | Obj addr
  | Fun addr
  | Rec "(string \<times> val) list"

datatype err =
    AssertionFailed string
  | TypeError string
  | RangeError string
  | Thrown val

text \<open>JavaScript truthiness, as used by \<^verbatim>\<open>if (!injections)\<close>, \<^verbatim>\<open>if (name)\<close> and
  \<^verbatim>\<open>assert(msg, owner)\<close>.\<close>

fun truthy :: "val \<Rightarrow> bool" where
  "truthy Undefined = False"
| "truthy Null = False"
| "truthy (Bool b) = b"
| "truthy (Num n) = (n \<noteq> 0)"
| "truthy (Str s) = (s \<noteq> [])"
| "truthy (Obj a) = True"
| "truthy (Fun a) = True"
| "truthy (Rec kvs) = True"

text \<open>\<^verbatim>\<open>this !== null && typeof this === 'object'\<close>; a function has typeof
  \<^verbatim>\<open>'function'\<close>.\<close>

fun is_object :: "val \<Rightarrow> bool" where
  "is_object (Obj a) = True"
| "is_object (Rec kvs) = True"
| "is_object v = False"

text \<open>The values a WeakMap accepts as keys: objects and functions.\<close>

fun is_weak_key :: "val \<Rightarrow> bool" where
  "is_weak_key (Obj a) = True"
| "is_weak_key (Fun a) = True"
| "is_weak_key (Rec kvs) = True"
| "is_weak_key v = False"

text \<open>
  User code (the function given to \<^verbatim>\<open>into\<close>, the callback given to \<^verbatim>\<open>build\<close>, a
  \<^verbatim>\<open>property\<close> callback) is a tree of its interactions with the store and the
  package: it returns, throws, reads or assigns a property of the object it runs against
  (\<^verbatim>\<open>this\<close>) or of another object, makes a new object (\<^verbatim>\<open>{}\<close>), calls a
  constructor of the package with \<^verbatim>\<open>new\<close> or as a plain function on a receiver,
  or calls a function object; and it continues
  with what the interaction gave (a value or an error, so that user code which catches
  an exception is expressible). A constructor is named by its address. The flag of an
  assignment says whether the assigning code is strict. Declaring builders and
  constructors is left to the steps between calls (relation \<open>step\<close> below).
\<close>

datatype 'a prog =
    Done 'a
  | Throw err
  | Get string "err + val \<Rightarrow> 'a prog"
  | Assign bool string val "err + unit \<Rightarrow> 'a prog"
  | GetOf val string "err + val \<Rightarrow> 'a prog"
  | AssignTo bool val string val "err + unit \<Rightarrow> 'a prog"
  | Alloc "val \<Rightarrow> 'a prog"
  | New addr "val list" "err + val \<Rightarrow> 'a prog"
  | Call addr val "val list" "err + val \<Rightarrow> 'a prog"
  | Apply val "val list" "err + val \<Rightarrow> 'a prog"

type_synonym body = "val list \<Rightarrow> val prog"

text \<open>What running user code asks for: a property of an object, \<^verbatim>\<open>new C(...args)\<close>,
  \<^verbatim>\<open>C.call(receiver, ...args)\<close>, \<^verbatim>\<open>f(...args)\<close>.\<close>

datatype request =
    GetProp val string
  | Construct addr "val list"
  | CallCtor addr val "val list"
  | CallFun val "val list"

section \<open>The store\<close>

text \<open>
  A property of an object. The three accessor kinds are the three getters the builder
  defines; the \<open>val option\<close> of a service or property slot is the captured variable
  \<^verbatim>\<open>service\<close> / \<^verbatim>\<open>value\<close>, with \<open>None\<close> for \<^verbatim>\<open>UNINITIALIZED\<close>.
\<close>

datatype slot =
    OwnerSlot val
  | ServiceSlot val val "val option"
  | PropertySlot val "val \<Rightarrow> val prog" "val option"
  | DataSlot val

record jsobject =
  props :: "string \<rightharpoonup> slot"
  frozen :: bool
  scope_of :: "val option"

text \<open>A function object made by \<^verbatim>\<open>fn.bind(injections)\<close> or returned by a
  \<^verbatim>\<open>build\<close> callback: its body and the injections object it is bound to (or closes
  over).\<close>

record func =
  fbody :: body
  fthis :: val

text \<open>The rules a builder accumulates (\<^verbatim>\<open>DefineInjectedProperty\<close> closures): the
  property name and what the closure captured.\<close>

datatype rule =
    OwnerRule string
  | ServiceRule string val
  | PropertyRule string "val \<Rightarrow> val prog"

fun rule_name :: "rule \<Rightarrow> string" where
  "rule_name (OwnerRule p) = p"
| "rule_name (ServiceRule p tok) = p"
| "rule_name (PropertyRule p cb) = p"

text \<open>The finalize strategy: \<^verbatim>\<open>into(fn)\<close> binds \<^verbatim>\<open>fn\<close> to the injections,
  \<^verbatim>\<open>build(callback)\<close> calls the callback with them and takes the function it
  returns.\<close>

datatype finalize = Into body | Build "body prog"

text \<open>
  A constructor made by \<^verbatim>\<open>constructorFor\<close>: its identity and what its closures
  captured. \<open>c_polaris\<close> and \<open>c_properties\<close> stand for the \<^verbatim>\<open>getInjections\<close>
  closure of the builder it came from, \<open>c_finalize\<close> for \<^verbatim>\<open>getInjected\<close>,
  \<open>c_name\<close> for the \<^verbatim>\<open>name\<close> argument (empty when the function has no name).
\<close>

record ctor =
  cid :: addr
  c_polaris :: bool
  c_properties :: "rule list"
  c_finalize :: finalize
  c_name :: string

text \<open>Ghost events: each run of external or user code leaves one, so that "runs at
  most once" can be stated.\<close>

datatype event =
    RulesRun addr val
  | FinalizeRun addr val
  | LookupCall val val
  | CallbackCall string val
  | Invoke addr "val list"

text \<open>
  \<open>injections\<close> and \<open>injected\<close> are the two private weak maps of the \<^verbatim>\<open>Storage\<close>
  objects, keyed by the constructor the storage belongs to and the owner.
  \<open>constructors\<close> holds the functions \<^verbatim>\<open>makeConstructor\<close> has returned, by address, so
  that user code can call them. \<open>STORAGE\<close> is the module's weak map of constructors,
  \<open>INJECTABLE\<close> the set of functions carrying the private symbol, \<open>managers\<close> the
  functions given a helper manager.
\<close>

record world =
  nxt :: addr
  objects :: "addr \<rightharpoonup> jsobject"
  funcs :: "addr \<rightharpoonup> func"
  builders :: "addr \<rightharpoonup> rule list"
  constructors :: "addr \<rightharpoonup> ctor"
  injections :: "addr \<times> val \<rightharpoonup> val"
  injected :: "addr \<times> val \<rightharpoonup> val"
  STORAGE :: "addr set"
  INJECTABLE :: "addr set"
  managers :: "addr set"
  trace :: "event list"

definition empty_world :: world where
  "empty_world =
     \<lparr>nxt = 0, objects = Map.empty, funcs = Map.empty, builders = Map.empty,
      constructors = Map.empty, injections = Map.empty, injected = Map.empty, STORAGE = {},
      INJECTABLE = {}, managers = {}, trace = []\<rparr>"

text \<open>
  What the package imports from its host: the build flag of
  \<^verbatim>\<open>macroCondition(isDevelopingApp())\<close>, the lifecycle predicates of
  \<^verbatim>\<open>@ember/destroyable\<close>, the owner resolution (\<^verbatim>\<open>getOwner\<close>, or \<^verbatim>\<open>getScope\<close> in the
  polaris module), the service lookup (\<^verbatim>\<open>owner.lookup\<close>, or \<^verbatim>\<open>lookup(scope, factory)\<close>),
  and the depth of call stack the engine leaves to user code.
\<close>

record env =
  isDevelopingApp :: bool
  isDestroying :: "val \<Rightarrow> bool"
  isDestroyed :: "val \<Rightarrow> bool"
  getOwner :: "val \<Rightarrow> err + val"
  lookup :: "val \<Rightarrow> val \<Rightarrow> err + val"
  stack :: nat

definition log :: "event \<Rightarrow> world \<Rightarrow> world" where
  "log e w = w\<lparr>trace := trace w @ [e]\<rparr>"

subsection \<open>Objects\<close>

definition put_slot :: "addr \<Rightarrow> string \<Rightarrow> slot \<Rightarrow> world \<Rightarrow> world" where
  "put_slot a p s w =
     (case objects w a of
        None \<Rightarrow> w
      | Some ob \<Rightarrow> w\<lparr>objects := (objects w)(a \<mapsto> ob\<lparr>props := (props ob)(p \<mapsto> s)\<rparr>)\<rparr>)"

text \<open>
  \<^verbatim>\<open>Object.defineProperty(injections, name, { get() {...} })\<close>. The descriptor names
  neither \<^verbatim>\<open>configurable\<close> nor \<^verbatim>\<open>set\<close>, so the property it creates cannot be
  redefined: defining the same name again with another getter throws. A data property
  made by assignment is configurable until the object is frozen.
\<close>

definition Object_defineProperty ::
  "addr \<Rightarrow> string \<Rightarrow> slot \<Rightarrow> world \<Rightarrow> (err + unit) \<times> world" where
  "Object_defineProperty a p s w =
     (case objects w a of
        None \<Rightarrow> (Inl (TypeError ''Object.defineProperty called on non-object''), w)
      | Some ob \<Rightarrow>
          (case props ob p of
             None \<Rightarrow>
               if frozen ob
               then (Inl (TypeError (''Cannot define property '' @ p @ '', object is not extensible'')), w)
               else (Inr (), put_slot a p s w)
           | Some (DataSlot v) \<Rightarrow>
               if frozen ob
               then (Inl (TypeError (''Cannot redefine property: '' @ p)), w)
               else (Inr (), put_slot a p s w)
           | Some old \<Rightarrow> (Inl (TypeError (''Cannot redefine property: '' @ p)), w)))"

definition Object_freeze :: "addr \<Rightarrow> world \<Rightarrow> world" where
  "Object_freeze a w =
     (case objects w a of
        None \<Rightarrow> w
      | Some ob \<Rightarrow> w\<lparr>objects := (objects w)(a \<mapsto> ob\<lparr>frozen := True\<rparr>)\<rparr>)"

text \<open>A failed assignment throws in strict code and is ignored in sloppy code.\<close>

definition reject :: "bool \<Rightarrow> string \<Rightarrow> world \<Rightarrow> (err + unit) \<times> world" where
  "reject strict p w =
     (if strict then (Inl (TypeError (''Cannot assign to read only property '' @ p)), w)
      else (Inr (), w))"

text \<open>\<^verbatim>\<open>target[p] = v\<close>. A getter without a setter refuses the assignment; a frozen
  object refuses every assignment.\<close>

definition assign :: "bool \<Rightarrow> val \<Rightarrow> string \<Rightarrow> val \<Rightarrow> world \<Rightarrow> (err + unit) \<times> world" where
  "assign strict t p v w =
     (case t of
        Obj a \<Rightarrow>
          (case objects w a of
             None \<Rightarrow> reject strict p w
           | Some ob \<Rightarrow>
               (case props ob p of
                  None \<Rightarrow> if frozen ob then reject strict p w else (Inr (), put_slot a p (DataSlot v) w)
                | Some (DataSlot u) \<Rightarrow>
                    if frozen ob then reject strict p w else (Inr (), put_slot a p (DataSlot v) w)
                | Some acc \<Rightarrow> reject strict p w))
      | Undefined \<Rightarrow> (Inl (TypeError (''Cannot set properties of undefined (setting '' @ p @ '')'')), w)
      | Null \<Rightarrow> (Inl (TypeError (''Cannot set properties of null (setting '' @ p @ '')'')), w)
      | other \<Rightarrow> reject strict p w)"

text \<open>The object literal \<^verbatim>\<open>{}\<close>: a new object without properties.\<close>

definition new_object :: "world \<Rightarrow> world" where
  "new_object w =
     w\<lparr>nxt := Suc (nxt w),
       objects := (objects w)(nxt w \<mapsto> \<lparr>props = Map.empty, frozen = False, scope_of = None\<rparr>)\<rparr>"

subsection \<open>Running user code\<close>

text \<open>\<open>exec h t c w\<close> runs the user code \<open>c\<close> against the object \<open>t\<close>; \<open>h\<close> performs
  what the code asks for.\<close>

primrec exec ::
  "(request \<Rightarrow> world \<Rightarrow> (err + val) \<times> world) \<Rightarrow> val \<Rightarrow> 'a prog \<Rightarrow> world
     \<Rightarrow> (err + 'a) \<times> world" where
  "exec h t (Done x) w = (Inr x, w)"
| "exec h t (Throw e) w = (Inl e, w)"
| "exec h t (Get p k) w = (case h (GetProp t p) w of (r, w') \<Rightarrow> exec h t (k r) w')"
| "exec h t (Assign strict p v k) w =
     (case assign strict t p v w of (r, w') \<Rightarrow> exec h t (k r) w')"
| "exec h t (GetOf u p k) w = (case h (GetProp u p) w of (r, w') \<Rightarrow> exec h t (k r) w')"
| "exec h t (AssignTo strict u p v k) w =
     (case assign strict u p v w of (r, w') \<Rightarrow> exec h t (k r) w')"
| "exec h t (Alloc k) w = exec h t (k (Obj (nxt w))) (new_object w)"
| "exec h t (New c args k) w = (case h (Construct c args) w of (r, w') \<Rightarrow> exec h t (k r) w')"
| "exec h t (Call c this args k) w =
     (case h (CallCtor c this args) w of (r, w') \<Rightarrow> exec h t (k r) w')"
| "exec h t (Apply f args k) w = (case h (CallFun f args) w of (r, w') \<Rightarrow> exec h t (k r) w')"

text \<open>
  Reading \<^verbatim>\<open>t[p]\<close>. For an accessor this runs the getter the rule defined:

  \<^item> owner rule: \<^verbatim>\<open>get() { return owner; }\<close>
  \<^item> service rule: \<^verbatim>\<open>if (service === UNINITIALIZED) { service = owner.lookup(...) } return service\<close>
  \<^item> property rule: \<^verbatim>\<open>if (value === UNINITIALIZED) { value = callback.call(this, owner) } return value\<close>

  A property callback runs with the object as \<^verbatim>\<open>this\<close>; \<open>h\<close> performs what the
  callback asks for, which may be a read of the same object.
\<close>

definition read_with ::
  "env \<Rightarrow> (request \<Rightarrow> world \<Rightarrow> (err + val) \<times> world) \<Rightarrow> val \<Rightarrow> string \<Rightarrow> world
     \<Rightarrow> (err + val) \<times> world" where
  "read_with env h t p w =
     (case t of
        Obj a \<Rightarrow>
          (case objects w a of
             None \<Rightarrow> (Inr Undefined, w)
           | Some ob \<Rightarrow>
               (case props ob p of
                  None \<Rightarrow> (Inr Undefined, w)
                | Some (DataSlot v) \<Rightarrow> (Inr v, w)
                | Some (OwnerSlot owner) \<Rightarrow> (Inr owner, w)
                | Some (ServiceSlot owner tok cell) \<Rightarrow>
                    (case cell of
                       Some v \<Rightarrow> (Inr v, w)
                     | None \<Rightarrow>
                         (case lookup env owner tok of
                            Inl e \<Rightarrow> (Inl e, log (LookupCall owner tok) w)
                          | Inr v \<Rightarrow>
                              (Inr v, put_slot a p (ServiceSlot owner tok (Some v))
                                        (log (LookupCall owner tok) w))))
                | Some (PropertySlot owner cb cell) \<Rightarrow>
                    (case cell of
                       Some v \<Rightarrow> (Inr v, w)
                     | None \<Rightarrow>
                         (case exec h t (cb owner) (log (CallbackCall p owner) w) of
                            (Inl e, w') \<Rightarrow> (Inl e, w')
                          | (Inr v, w') \<Rightarrow>
                              (Inr v, put_slot a p (PropertySlot owner cb (Some v)) w')))))
      | Undefined \<Rightarrow> (Inl (TypeError (''Cannot read properties of undefined (reading '' @ p @ '')'')), w)
      | Null \<Rightarrow> (Inl (TypeError (''Cannot read properties of null (reading '' @ p @ '')'')), w)
      | Rec kvs \<Rightarrow> (Inr (case map_of kvs p of None \<Rightarrow> Undefined | Some v \<Rightarrow> v), w)
      | other \<Rightarrow> (Inr Undefined, w))"

text \<open>Calling a function object with arguments.\<close>

definition invoke_with ::
  "(request \<Rightarrow> world \<Rightarrow> (err + val) \<times> world) \<Rightarrow> val \<Rightarrow> val list \<Rightarrow> world
     \<Rightarrow> (err + val) \<times> world" where
  "invoke_with h f args w =
     (case f of
        Fun a \<Rightarrow>
          (case funcs w a of
             None \<Rightarrow> (Inl (TypeError ''not a function''), w)
           | Some fr \<Rightarrow> exec h (fthis fr) (fbody fr args) (log (Invoke a args) w))
      | other \<Rightarrow> (Inl (TypeError ''not a function''), w))"

section \<open>injection.ts\<close>

text \<open>
  Modelled from the spec: \<^verbatim>\<open>assert\<close> of \<^verbatim>\<open>@ember/debug\<close> is not part of the
  sources; it aborts with an assertion error when its condition does not hold.
\<close>

definition assert :: "string \<Rightarrow> bool \<Rightarrow> err + unit" where
  "assert msg cond = (if cond then Inr () else Inl (AssertionFailed msg))"

text \<open>\<^verbatim>\<open>WeakMap.prototype.get\<close> answers \<^verbatim>\<open>undefined\<close> for a missing key and for
  what cannot be a key; \<^verbatim>\<open>set\<close> throws on what cannot be a key.\<close>

definition WeakMap_get :: "(addr \<times> val \<rightharpoonup> val) \<Rightarrow> addr \<Rightarrow> val \<Rightarrow> val" where
  "WeakMap_get m c k =
     (if is_weak_key k then (case m (c, k) of None \<Rightarrow> Undefined | Some v \<Rightarrow> v) else Undefined)"

definition WeakMap_set ::
  "(addr \<times> val \<rightharpoonup> val) \<Rightarrow> addr \<Rightarrow> val \<Rightarrow> val \<Rightarrow> err + (addr \<times> val \<rightharpoonup> val)" where
  "WeakMap_set m c k v =
     (if is_weak_key k then Inr (m((c, k) \<mapsto> v))
      else Inl (TypeError ''Invalid value used as weak map key''))"

definition isInjectable :: "world \<Rightarrow> ctor \<Rightarrow> bool" where
  "isInjectable w ct = (cid ct \<in> INJECTABLE w)"

subsection \<open>The closures the builder hands to constructorFor\<close>

text \<open>
  One rule applied to the owner and the object under construction: each rule calls
  \<^verbatim>\<open>Object.defineProperty\<close> once, with a getter over a fresh variable that holds
  \<^verbatim>\<open>UNINITIALIZED\<close>.
\<close>

fun rule_slot :: "rule \<Rightarrow> val \<Rightarrow> slot" where
  "rule_slot (OwnerRule p) owner = OwnerSlot owner"
| "rule_slot (ServiceRule p tok) owner = ServiceSlot owner tok None"
| "rule_slot (PropertyRule p cb) owner = PropertySlot owner cb None"

definition define_rule :: "rule \<Rightarrow> val \<Rightarrow> addr \<Rightarrow> world \<Rightarrow> (err + unit) \<times> world" where
  "define_rule r owner a w = Object_defineProperty a (rule_name r) (rule_slot r owner) w"

text \<open>\<^verbatim>\<open>for (const defineProperty of properties) { defineProperty(owner, injections) }\<close>\<close>

fun define_all :: "rule list \<Rightarrow> val \<Rightarrow> addr \<Rightarrow> world \<Rightarrow> (err + unit) \<times> world" where
  "define_all [] owner a w = (Inr (), w)"
| "define_all (r # rs) owner a w =
     (case define_rule r owner a w of
        (Inl e, w') \<Rightarrow> (Inl e, w')
      | (Inr u, w') \<Rightarrow> define_all rs owner a w')"

text \<open>\<^verbatim>\<open>setScope(injections, scope)\<close> of the polaris module.\<close>

definition setScope :: "addr \<Rightarrow> val \<Rightarrow> world \<Rightarrow> world" where
  "setScope a s w =
     (case objects w a of
        None \<Rightarrow> w
      | Some ob \<Rightarrow> w\<lparr>objects := (objects w)(a \<mapsto> ob\<lparr>scope_of := Some s\<rparr>)\<rparr>)"

text \<open>
  The function \<^verbatim>\<open>Builder.getInjections()\<close> returns: a fresh object, every rule
  applied in order, (polaris: the scope recorded,) the object frozen.
\<close>

definition Builder_getInjections ::
  "bool \<Rightarrow> rule list \<Rightarrow> val \<Rightarrow> world \<Rightarrow> (err + val) \<times> world" where
  "Builder_getInjections polaris properties owner w =
     (let a = nxt w;
          w0 = w\<lparr>nxt := Suc a,
                 objects := (objects w)(a \<mapsto> \<lparr>props = Map.empty, frozen = False, scope_of = None\<rparr>)\<rparr>
      in case define_all properties owner a w0 of
           (Inl e, w1) \<Rightarrow> (Inl e, w1)
         | (Inr u, w1) \<Rightarrow>
             (Inr (Obj a), Object_freeze a (if polaris then setScope a owner w1 else w1)))"

text \<open>\<^verbatim>\<open>(injections) => fn.bind(injections)\<close>, or the callback given to
  \<^verbatim>\<open>build\<close>. Either way the result is a new function object.\<close>

definition new_func :: "body \<Rightarrow> val \<Rightarrow> world \<Rightarrow> val \<times> world" where
  "new_func b t w =
     (Fun (nxt w), w\<lparr>nxt := Suc (nxt w), funcs := (funcs w)(nxt w \<mapsto> \<lparr>fbody = b, fthis = t\<rparr>)\<rparr>)"

text \<open>The \<^verbatim>\<open>getInjected\<close> closure applied to the injections; \<open>h\<close> performs what a
  \<^verbatim>\<open>build\<close> callback asks for.\<close>

definition apply_finalize_with ::
  "(request \<Rightarrow> world \<Rightarrow> (err + val) \<times> world) \<Rightarrow> finalize \<Rightarrow> val \<Rightarrow> world
     \<Rightarrow> (err + val) \<times> world" where
  "apply_finalize_with h fin bag w =
     (case fin of
        Into fn \<Rightarrow> (case new_func fn bag w of (f, w') \<Rightarrow> (Inr f, w'))
      | Build callback \<Rightarrow>
          (case exec h bag callback w of
             (Inl e, w') \<Rightarrow> (Inl e, w')
           | (Inr b, w') \<Rightarrow> (case new_func b bag w' of (f, w'') \<Rightarrow> (Inr f, w''))))"

subsection \<open>class Storage\<close>

text \<open>\<^verbatim>\<open>constructorFor\<close> calls \<^verbatim>\<open>new Storage(getInjections, getInjected)\<close> with no
  name, so \<^verbatim>\<open>#name\<close> is always its default.\<close>

definition Storage_name :: string where
  "Storage_name = ''(unknown function)''"

definition msg_destroying :: string where
  "msg_destroying = ''cannot call '' @ Storage_name @ '' while the owner is being destroyed''"

definition msg_destroyed :: string where
  "msg_destroyed =
     ''cannot call '' @ Storage_name @ '' after the owner has already been destroyed''"

definition Storage_getInjections :: "env \<Rightarrow> ctor \<Rightarrow> val \<Rightarrow> world \<Rightarrow> (err + val) \<times> world" where
  "Storage_getInjections env ct owner w =
     (case assert msg_destroying (\<not> isDestroying env owner) of
        Inl e \<Rightarrow> (Inl e, w)
      | Inr u \<Rightarrow>
     (case assert msg_destroyed (\<not> isDestroyed env owner) of
        Inl e \<Rightarrow> (Inl e, w)
      | Inr u \<Rightarrow>
     (let cached = WeakMap_get (injections w) (cid ct) owner in
      if truthy cached then (Inr cached, w)
      else
        (case Builder_getInjections (c_polaris ct) (c_properties ct) owner
                (log (RulesRun (cid ct) owner) w) of
           (Inl e, w1) \<Rightarrow> (Inl e, w1)
         | (Inr b, w1) \<Rightarrow>
             (case WeakMap_set (injections w1) (cid ct) owner b of
                Inl e \<Rightarrow> (Inl e, w1)
              | Inr m \<Rightarrow> (Inr b, w1\<lparr>injections := m\<rparr>))))))"

text \<open>\<^verbatim>\<open>getInjected\<close> runs user code when the finalize strategy is a \<^verbatim>\<open>build\<close>
  callback; \<open>h\<close> performs what that code asks for.\<close>

definition Storage_getInjected_with ::
  "(request \<Rightarrow> world \<Rightarrow> (err + val) \<times> world) \<Rightarrow> env \<Rightarrow> ctor \<Rightarrow> val \<Rightarrow> world
     \<Rightarrow> (err + val) \<times> world" where
  "Storage_getInjected_with h env ct owner w =
     (case assert msg_destroying (\<not> isDestroying env owner) of
        Inl e \<Rightarrow> (Inl e, w)
      | Inr u \<Rightarrow>
     (case assert msg_destroyed (\<not> isDestroyed env owner) of
        Inl e \<Rightarrow> (Inl e, w)
      | Inr u \<Rightarrow>
     (let cached = WeakMap_get (injected w) (cid ct) owner in
      if truthy cached then (Inr cached, w)
      else
        (case Storage_getInjections env ct owner w of
           (Inl e, w1) \<Rightarrow> (Inl e, w1)
         | (Inr bag, w1) \<Rightarrow>
             (case apply_finalize_with h (c_finalize ct) bag
                     (log (FinalizeRun (cid ct) owner) w1) of
                (Inl e, w2) \<Rightarrow> (Inl e, w2)
              | (Inr f, w2) \<Rightarrow>
                  (case WeakMap_set (injected w2) (cid ct) owner f of
                     Inl e \<Rightarrow> (Inl e, w2)
                   | Inr m \<Rightarrow> (Inr f, w2\<lparr>injected := m\<rparr>)))))))"

subsection \<open>constructorFor and makeConstructor\<close>

definition msg_no_context :: "string \<Rightarrow> string" where
  "msg_no_context name =
     ''cannot call '' @ name @
     '' without a context object; it must be called with a `this` object with an owner''"

definition msg_bad_context :: "string \<Rightarrow> string" where
  "msg_bad_context name =
     ''cannot call '' @ name @
     '' with an invalid context object; it must be called with a `this` object with an owner''"

text \<open>\<^verbatim>\<open>args[0]\<close>\<close>

definition first_arg :: "val list \<Rightarrow> val" where
  "first_arg args = (case args of [] \<Rightarrow> Undefined | a # rest \<Rightarrow> a)"

text \<open>The plain-call branch of the function made for a development build and a function
  with a name: two assertions, then
  \<^verbatim>\<open>return storage.getInjected(owner)(...args)\<close>.\<close>

definition call_checked_with ::
  "(request \<Rightarrow> world \<Rightarrow> (err + val) \<times> world) \<Rightarrow> env \<Rightarrow> ctor \<Rightarrow> val \<Rightarrow> val list \<Rightarrow> world
     \<Rightarrow> (err + val) \<times> world" where
  "call_checked_with h env ct this args w =
     (case assert (msg_no_context (c_name ct)) (is_object this) of
        Inl e \<Rightarrow> (Inl e, w)
      | Inr u \<Rightarrow>
     (case getOwner env this of
        Inl e \<Rightarrow> (Inl e, w)
      | Inr owner \<Rightarrow>
     (case assert (msg_bad_context (c_name ct)) (truthy owner) of
        Inl e \<Rightarrow> (Inl e, w)
      | Inr u \<Rightarrow>
          (case Storage_getInjected_with h env ct owner w of
             (Inl e, w1) \<Rightarrow> (Inl e, w1)
           | (Inr f, w1) \<Rightarrow> invoke_with h f args w1))))"

text \<open>The plain-call branch of the other function:
  \<^verbatim>\<open>const owner = getOwner(this); return storage.getInjected(owner!)(...args)\<close>.\<close>

definition call_unchecked_with ::
  "(request \<Rightarrow> world \<Rightarrow> (err + val) \<times> world) \<Rightarrow> env \<Rightarrow> ctor \<Rightarrow> val \<Rightarrow> val list \<Rightarrow> world
     \<Rightarrow> (err + val) \<times> world" where
  "call_unchecked_with h env ct this args w =
     (case getOwner env this of
        Inl e \<Rightarrow> (Inl e, w)
      | Inr owner \<Rightarrow>
          (case Storage_getInjected_with h env ct owner w of
             (Inl e, w1) \<Rightarrow> (Inl e, w1)
           | (Inr f, w1) \<Rightarrow> invoke_with h f args w1))"

text \<open>
  \<^verbatim>\<open>makeConstructor\<close> returns one of two functions:
  \<^verbatim>\<open>if (macroCondition(isDevelopingApp())) { if (name) { ... return obj[name] } } return function ...\<close>.
  Each of them branches on \<^verbatim>\<open>new.target\<close>, and with \<^verbatim>\<open>new\<close> both return
  \<^verbatim>\<open>storage.getInjected(args[0])\<close>. The definition is a call of the function
  \<^verbatim>\<open>makeConstructor\<close> returned, with the flag for \<^verbatim>\<open>new.target\<close> and the receiver.
\<close>

definition makeConstructor_with ::
  "(request \<Rightarrow> world \<Rightarrow> (err + val) \<times> world) \<Rightarrow> env \<Rightarrow> ctor \<Rightarrow> bool \<Rightarrow> val \<Rightarrow> val list
     \<Rightarrow> world \<Rightarrow> (err + val) \<times> world" where
  "makeConstructor_with h env ct new_target this args w =
     (if isDevelopingApp env \<and> c_name ct \<noteq> []
      then (if new_target then Storage_getInjected_with h env ct (first_arg args) w
            else call_checked_with h env ct this args w)
      else (if new_target then Storage_getInjected_with h env ct (first_arg args) w
            else call_unchecked_with h env ct this args w))"

text \<open>The \<^verbatim>\<open>name\<close> of the function \<^verbatim>\<open>makeConstructor\<close> returns: the key of the object
  literal in the first case, none for the function expression of the second.\<close>

definition function_name :: "env \<Rightarrow> ctor \<Rightarrow> string" where
  "function_name env ct = (if isDevelopingApp env \<and> c_name ct \<noteq> [] then c_name ct else [])"

text \<open>\<^verbatim>\<open>constructorFor\<close>: a new storage and constructor, the constructor entered into
  \<^verbatim>\<open>STORAGE\<close> and marked with the \<^verbatim>\<open>INJECTABLE\<close> symbol.\<close>

definition constructorFor ::
  "bool \<Rightarrow> rule list \<Rightarrow> finalize \<Rightarrow> string \<Rightarrow> world \<Rightarrow> ctor \<times> world" where
  "constructorFor polaris properties fin name w =
     (\<lparr>cid = nxt w, c_polaris = polaris, c_properties = properties, c_finalize = fin,
       c_name = name\<rparr>,
      w\<lparr>nxt := Suc (nxt w),
        constructors := (constructors w)(nxt w \<mapsto>
          \<lparr>cid = nxt w, c_polaris = polaris, c_properties = properties, c_finalize = fin,
           c_name = name\<rparr>),
        STORAGE := insert (nxt w) (STORAGE w),
        INJECTABLE := insert (nxt w) (INJECTABLE w)\<rparr>)"

subsection \<open>The call stack\<close>

text \<open>
  What user code asks for is performed by the engine and the package, which may run
  user code again: a getter runs a property callback, a constructor runs a \<^verbatim>\<open>build\<close>
  callback, a function object runs its body. The first argument after the host is the
  depth of stack left; a request with none left is the engine's RangeError.
\<close>

primrec perform :: "env \<Rightarrow> nat \<Rightarrow> request \<Rightarrow> world \<Rightarrow> (err + val) \<times> world" where
  "perform env 0 rq w = (Inl (RangeError ''Maximum call stack size exceeded''), w)"
| "perform env (Suc n) rq w =
     (case rq of
        GetProp t p \<Rightarrow> read_with env (perform env n) t p w
      | Construct c args \<Rightarrow>
          (case constructors w c of
             None \<Rightarrow> (Inl (TypeError ''not a constructor''), w)
           | Some ct \<Rightarrow> makeConstructor_with (perform env n) env ct True Undefined args w)
      | CallCtor c this args \<Rightarrow>
          (case constructors w c of
             None \<Rightarrow> (Inl (TypeError ''not a function''), w)
           | Some ct \<Rightarrow> makeConstructor_with (perform env n) env ct False this args w)
      | CallFun f args \<Rightarrow> invoke_with (perform env n) f args w)"

text \<open>The operations as the host calls them, with the whole stack left to the user code
  they run. \<open>read env n\<close> is a read with \<open>n\<close> frames left.\<close>

definition read :: "env \<Rightarrow> nat \<Rightarrow> val \<Rightarrow> string \<Rightarrow> world \<Rightarrow> (err + val) \<times> world" where
  "read env n t p w = perform env n (GetProp t p) w"

definition invoke :: "env \<Rightarrow> val \<Rightarrow> val list \<Rightarrow> world \<Rightarrow> (err + val) \<times> world" where
  "invoke env f args w = invoke_with (perform env (stack env)) f args w"

definition apply_finalize :: "env \<Rightarrow> finalize \<Rightarrow> val \<Rightarrow> world \<Rightarrow> (err + val) \<times> world" where
  "apply_finalize env fin bag w = apply_finalize_with (perform env (stack env)) fin bag w"

definition Storage_getInjected :: "env \<Rightarrow> ctor \<Rightarrow> val \<Rightarrow> world \<Rightarrow> (err + val) \<times> world" where
  "Storage_getInjected env ct owner w =
     Storage_getInjected_with (perform env (stack env)) env ct owner w"

definition call_checked :: "env \<Rightarrow> ctor \<Rightarrow> val \<Rightarrow> val list \<Rightarrow> world \<Rightarrow> (err + val) \<times> world" where
  "call_checked env ct this args w =
     call_checked_with (perform env (stack env)) env ct this args w"

definition call_unchecked :: "env \<Rightarrow> ctor \<Rightarrow> val \<Rightarrow> val list \<Rightarrow> world \<Rightarrow> (err + val) \<times> world" where
  "call_unchecked env ct this args w =
     call_unchecked_with (perform env (stack env)) env ct this args w"

definition makeConstructor ::
  "env \<Rightarrow> ctor \<Rightarrow> bool \<Rightarrow> val \<Rightarrow> val list \<Rightarrow> world \<Rightarrow> (err + val) \<times> world" where
  "makeConstructor env ct new_target this args w =
     makeConstructor_with (perform env (stack env)) env ct new_target this args w"

text \<open>\<^verbatim>\<open>new C(...args)\<close>; the receiver is the object \<^verbatim>\<open>new\<close> made, which the
  function does not look at.\<close>

definition ctor_new :: "env \<Rightarrow> ctor \<Rightarrow> val list \<Rightarrow> world \<Rightarrow> (err + val) \<times> world" where
  "ctor_new env ct args w = makeConstructor env ct True Undefined args w"

text \<open>\<^verbatim>\<open>C.call(this, ...args)\<close>\<close>

definition ctor_call :: "env \<Rightarrow> ctor \<Rightarrow> val \<Rightarrow> val list \<Rightarrow> world \<Rightarrow> (err + val) \<times> world" where
  "ctor_call env ct this args w = makeConstructor env ct False this args w"

section \<open>manager.ts\<close>

record arguments =
  positional :: "val list"
  named :: "(string \<times> val) list"

record state =
  st_fn :: val
  st_args :: arguments

definition Object_keys :: "(string \<times> val) list \<Rightarrow> string list" where
  "Object_keys kvs = map fst kvs"

definition msg_injectable :: string where
  "msg_injectable = ''must be an injectable constructor''"

text \<open>\<open>createHelper\<close> of the manager made by \<^verbatim>\<open>factory(owner)\<close>.\<close>

definition createHelper ::
  "env \<Rightarrow> val \<Rightarrow> ctor \<Rightarrow> arguments \<Rightarrow> world \<Rightarrow> (err + state) \<times> world" where
  "createHelper env owner constructor a w =
     (case assert msg_injectable (isInjectable w constructor) of
        Inl e \<Rightarrow> (Inl e, w)
      | Inr u \<Rightarrow>
          (case ctor_new env constructor [owner] w of
             (Inl e, w1) \<Rightarrow> (Inl e, w1)
           | (Inr f, w1) \<Rightarrow> (Inr \<lparr>st_fn = f, st_args = a\<rparr>, w1)))"

definition getValue :: "env \<Rightarrow> state \<Rightarrow> world \<Rightarrow> (err + val) \<times> world" where
  "getValue env st w =
     (if length (Object_keys (named (st_args st))) > 0
      then invoke env (st_fn st) (positional (st_args st) @ [Rec (named (st_args st))]) w
      else invoke env (st_fn st) (positional (st_args st)) w)"

text \<open>\<^verbatim>\<open>getDebugName(fn) { return fn.name; }\<close>\<close>

definition getDebugName :: "env \<Rightarrow> ctor \<Rightarrow> string" where
  "getDebugName env f = function_name env f"

text \<open>\<^verbatim>\<open>setHelperManager(factory, fn)\<close> of \<^verbatim>\<open>@ember/helper\<close> associates the manager
  factory with the function and returns the function.\<close>

definition helperFor :: "ctor \<Rightarrow> world \<Rightarrow> (err + ctor) \<times> world" where
  "helperFor f w =
     (case assert msg_injectable (isInjectable w f) of
        Inl e \<Rightarrow> (Inl e, w)
      | Inr u \<Rightarrow> (Inr f, w\<lparr>managers := insert (cid f) (managers w)\<rparr>))"

section \<open>index.ts and polaris-experimental.ts: class Builder\<close>

text \<open>
  A builder is an object holding the array \<^verbatim>\<open>properties\<close>. Each chaining method
  allocates \<^verbatim>\<open>new Builder([...this.properties, rule])\<close>. A method called on something
  that is no builder finds no array to spread.
\<close>

definition new_Builder :: "rule list \<Rightarrow> world \<Rightarrow> addr \<times> world" where
  "new_Builder properties w =
     (nxt w, w\<lparr>nxt := Suc (nxt w), builders := (builders w)(nxt w \<mapsto> properties)\<rparr>)"

definition Builder_chain :: "addr \<Rightarrow> rule \<Rightarrow> world \<Rightarrow> (err + addr) \<times> world" where
  "Builder_chain b r w =
     (case builders w b of
        None \<Rightarrow> (Inl (TypeError ''this.properties is not iterable''), w)
      | Some properties \<Rightarrow> (case new_Builder (properties @ [r]) w of (b', w') \<Rightarrow> (Inr b', w')))"

definition Builder_owner :: "addr \<Rightarrow> world \<Rightarrow> (err + addr) \<times> world" where
  "Builder_owner b w = Builder_chain b (OwnerRule ''owner'') w"

text \<open>\<^verbatim>\<open>service(propertyName, serviceName = propertyName)\<close> looks up
  \<^verbatim>\<open>`service:${serviceName}`\<close>.\<close>

definition Builder_service :: "addr \<Rightarrow> string \<Rightarrow> string option \<Rightarrow> world \<Rightarrow> (err + addr) \<times> world" where
  "Builder_service b propertyName serviceName w =
     Builder_chain b (ServiceRule propertyName
                (Str (''service:'' @ (case serviceName of None \<Rightarrow> propertyName | Some s \<Rightarrow> s)))) w"

definition Builder_property ::
  "addr \<Rightarrow> string \<Rightarrow> (val \<Rightarrow> val prog) \<Rightarrow> world \<Rightarrow> (err + addr) \<times> world" where
  "Builder_property b name callback w = Builder_chain b (PropertyRule name callback) w"

text \<open>The polaris builder: \<^verbatim>\<open>scope()\<close> and \<^verbatim>\<open>service(name, factory)\<close>; its
  \<^verbatim>\<open>property\<close> is the same.\<close>

definition Builder_scope :: "addr \<Rightarrow> world \<Rightarrow> (err + addr) \<times> world" where
  "Builder_scope b w = Builder_chain b (OwnerRule ''scope'') w"

definition Builder_service_polaris ::
  "addr \<Rightarrow> string \<Rightarrow> val \<Rightarrow> world \<Rightarrow> (err + addr) \<times> world" where
  "Builder_service_polaris b name factory w = Builder_chain b (ServiceRule name factory) w"

text \<open>
  \<^verbatim>\<open>into(fn)\<close> and \<^verbatim>\<open>build(callback)\<close>:
  \<^verbatim>\<open>helperFor(constructorFor(getInjections, getInjected, getOwner, name))\<close>, where the
  name is that of the function given. The flag says which module's builder it is.
\<close>

definition Builder_into ::
  "bool \<Rightarrow> addr \<Rightarrow> string \<Rightarrow> body \<Rightarrow> world \<Rightarrow> (err + ctor) \<times> world" where
  "Builder_into polaris b name fn w =
     (case builders w b of
        None \<Rightarrow> (Inl (TypeError ''this.properties is not iterable''), w)
      | Some properties \<Rightarrow>
          (case constructorFor polaris properties (Into fn) name w of
             (ct, w') \<Rightarrow> helperFor ct w'))"

definition Builder_build ::
  "bool \<Rightarrow> addr \<Rightarrow> string \<Rightarrow> body prog \<Rightarrow> world \<Rightarrow> (err + ctor) \<times> world" where
  "Builder_build polaris b name getInjected w =
     (case builders w b of
        None \<Rightarrow> (Inl (TypeError ''this.properties is not iterable''), w)
      | Some properties \<Rightarrow>
          (case constructorFor polaris properties (Build getInjected) name w of
             (ct, w') \<Rightarrow> helperFor ct w'))"

text \<open>\<^verbatim>\<open>export default new Builder()\<close>: the world each module starts in, with its
  default builder at address 0.\<close>

definition inject :: addr where
  "inject = fst (new_Builder [] empty_world)"

definition init_world :: world where
  "init_world = snd (new_Builder [] empty_world)"

section \<open>Invariants\<close>

text \<open>
  The invariant of the two weak maps: keys are values a weak map can hold; a cached
  injections object is an allocated, frozen object; a cached injected function is an
  allocated function bound to the injections object cached for the same constructor
  and owner.
\<close>

definition wf_world :: "world \<Rightarrow> bool" where
  "wf_world w \<longleftrightarrow>
     (\<forall>c ow b. injections w (c, ow) = Some b \<longrightarrow>
        is_weak_key ow \<and>
        (\<exists>a ob. b = Obj a \<and> a < nxt w \<and> objects w a = Some ob \<and> frozen ob)) \<and>
     (\<forall>c ow f. injected w (c, ow) = Some f \<longrightarrow>
        (\<exists>a fr. f = Fun a \<and> a < nxt w \<and> funcs w a = Some fr \<and>
                 injections w (c, ow) = Some (fthis fr)))"

text \<open>
  What a call of a function object, of a constructor or of one of the two
  \<^verbatim>\<open>Storage\<close> methods leaves alone, whatever user code it runs: the builders, the
  constructors and the marker sets; addresses are only added.
\<close>

definition call_frame :: "world \<Rightarrow> world \<Rightarrow> bool" where
  "call_frame w w' \<longleftrightarrow>
     nxt w \<le> nxt w' \<and> builders w' = builders w \<and> constructors w' = constructors w \<and>
     STORAGE w' = STORAGE w \<and> INJECTABLE w' = INJECTABLE w \<and> managers w' = managers w"

text \<open>The events that are calls of a function object, and those that are runs of rule
  evaluation or finalize.\<close>

fun is_Invoke :: "event \<Rightarrow> bool" where
  "is_Invoke (Invoke a args) = True"
| "is_Invoke e = False"

fun is_run :: "event \<Rightarrow> bool" where
  "is_run (RulesRun c owner) = True"
| "is_run (FinalizeRun c owner) = True"
| "is_run e = False"

text \<open>
  What such a call does to the two weak maps. An entry changes only in a call that runs
  rule evaluation, or finalize, for that constructor and owner. And from a state that
  satisfies the invariant, the invariant is kept, and neither is run for a pair whose
  entry is there already.
\<close>

definition cache_frame :: "world \<Rightarrow> world \<Rightarrow> bool" where
  "cache_frame w w' \<longleftrightarrow>
     (\<exists>es. trace w' = trace w @ es \<and>
        (\<forall>c ow. injections w' (c, ow) \<noteq> injections w (c, ow) \<longrightarrow> RulesRun c ow \<in> set es) \<and>
        (\<forall>c ow. injected w' (c, ow) \<noteq> injected w (c, ow) \<longrightarrow> FinalizeRun c ow \<in> set es) \<and>
        (wf_world w \<longrightarrow>
           wf_world w' \<and>
           (\<forall>c ow b. injections w (c, ow) = Some b \<longrightarrow> RulesRun c ow \<notin> set es) \<and>
           (\<forall>c ow f. injected w (c, ow) = Some f \<longrightarrow> FinalizeRun c ow \<notin> set es)))"

text \<open>
  What it does to the objects: an allocated object stays, and a getter of it that has
  resolved its value keeps it.
\<close>

fun resolved :: "slot \<Rightarrow> bool" where
  "resolved (ServiceSlot owner tok (Some v)) = True"
| "resolved (PropertySlot owner cb (Some v)) = True"
| "resolved s = False"

definition slot_frame :: "world \<Rightarrow> world \<Rightarrow> bool" where
  "slot_frame w w' \<longleftrightarrow>
     nxt w \<le> nxt w' \<and>
     (\<forall>a ob. a < nxt w \<and> objects w a = Some ob \<longrightarrow>
        (\<exists>ob'. objects w' a = Some ob' \<and>
           (\<forall>p s. props ob p = Some s \<and> resolved s \<longrightarrow> props ob' p = Some s)))"

text \<open>Every builder in the store lies below the allocation counter.\<close>

definition builders_allocated :: "world \<Rightarrow> bool" where
  "builders_allocated w \<longleftrightarrow> (\<forall>b ps. builders w b = Some ps \<longrightarrow> b < nxt w)"

text \<open>
  One step of a program that uses the package: a call of the public interface, of one
  of the two \<^verbatim>\<open>Storage\<close> methods, of a function object, or user code run against an
  object. Each step may run user code that calls back into the package. The states
  reachable from the state after \<^verbatim>\<open>inject()\<close> are the closure.
\<close>

inductive step :: "world \<Rightarrow> world \<Rightarrow> bool" where
  step_chain: "step w (snd (Builder_chain b r w))"
| step_into: "step w (snd (Builder_into pol b name fn w))"
| step_build: "step w (snd (Builder_build pol b name cb w))"
| step_new: "step w (snd (ctor_new env ct args w))"
| step_call: "step w (snd (ctor_call env ct this args w))"
| step_getInjections: "step w (snd (Storage_getInjections env ct owner w))"
| step_getInjected: "step w (snd (Storage_getInjected env ct owner w))"
| step_invoke: "step w (snd (invoke env f args w))"
| step_createHelper: "step w (snd (createHelper env owner ct a w))"
| step_getValue: "step w (snd (getValue env st w))"
| step_helperFor: "step w (snd (helperFor ct w))"
| step_user: "step w (snd (exec (perform env n) t (c :: val prog) w))"

definition reachable :: "world \<Rightarrow> bool" where
  "reachable w \<longleftrightarrow> rtranclp step init_world w"

section \<open>Example data\<close>

text \<open>
  A development build in which every owner is alive, the receiver at address 100
  carries the owner at address 7 and nothing else carries an owner, and the only
  registered service is \<^verbatim>\<open>config\<close>, an object with \<^verbatim>\<open>value = 10\<close>.
\<close>

definition env_dev :: env where
  "env_dev =
     \<lparr>isDevelopingApp = True,
      isDestroying = (\<lambda>owner. False),
      isDestroyed = (\<lambda>owner. False),
      getOwner = (\<lambda>this. if this = Obj 100 then Inr (Obj 7) else Inr Undefined),
      lookup = (\<lambda>owner tok. if tok = Str ''service:config'' then Inr (Rec [(''value'', Num 10)])
                             else Inl (Thrown (Str ''no such service''))),
      stack = 5\<rparr>"

text \<open>The same host after the owner at address 7 has been destroyed.\<close>

definition env_gone :: env where
  "env_gone = env_dev\<lparr>isDestroyed := (\<lambda>owner. owner = Obj 7)\<rparr>"

text \<open>A production build whose owner resolution answers with the owner at address 7
  whatever it is given.\<close>

definition env_prod :: env where
  "env_prod = env_dev\<lparr>isDevelopingApp := False, getOwner := (\<lambda>this. Inr (Obj 7))\<rparr>"

text \<open>A development build whose owner resolution does the same.\<close>

definition env_any :: env where
  "env_any = env_dev\<lparr>getOwner := (\<lambda>this. Inr (Obj 7))\<rparr>"

text \<open>\<^verbatim>\<open>function f(a) { return this.config.value + this.computedX + a; }\<close>\<close>

definition f_body :: body where
  "f_body args =
     Get ''config'' (\<lambda>r1. case r1 of
         Inl e \<Rightarrow> Throw e
       | Inr c \<Rightarrow>
     Get ''computedX'' (\<lambda>r2. case r2 of
         Inl e \<Rightarrow> Throw e
       | Inr x \<Rightarrow>
           (case (c, x, args) of
              (Rec [(k, Num cv)], Num xv, [Num a]) \<Rightarrow> Done (Num (cv + xv + a))
            | other \<Rightarrow> Throw (TypeError ''not a number''))))"

text \<open>The other functions of the examples: the callback \<^verbatim>\<open>(o) => 5\<close>, the functions
  \<^verbatim>\<open>function g() {}\<close> and \<^verbatim>\<open>function h() { return this.missing; }\<close>, a \<^verbatim>\<open>build\<close>
  callback that throws, and the \<^verbatim>\<open>build\<close> callback \<^verbatim>\<open>() => () => 1\<close>.\<close>

definition five :: "val \<Rightarrow> val prog" where
  "five owner = Done (Num 5)"

definition g_body :: body where
  "g_body args = Done Undefined"

definition h_body :: body where
  "h_body args = Get ''missing'' (\<lambda>r. case r of Inl e \<Rightarrow> Throw e | Inr v \<Rightarrow> Done v)"

definition failing_callback :: "body prog" where
  "failing_callback = Throw (Thrown (Str ''setup failed''))"

definition one_body :: body where
  "one_body args = Done (Num 1)"

definition one_callback :: "body prog" where
  "one_callback = Done one_body"

text \<open>\<^verbatim>\<open>inject.service('config').property('computedX', (o) => 5).into(f)\<close>, from the
  module's initial state.\<close>

definition demo_ctor :: ctor where
  "demo_ctor =
     \<lparr>cid = 3, c_polaris = False,
      c_properties = [ServiceRule ''config'' (Str ''service:config''),
                      PropertyRule ''computedX'' five],
      c_finalize = Into f_body, c_name = ''f''\<rparr>"

definition demo_world :: world where
  "demo_world =
     snd (Builder_into False 2 ''f'' f_body
       (snd (Builder_property 1 ''computedX'' five
         (snd (Builder_service inject ''config'' None init_world)))))"

text \<open>The state after \<^verbatim>\<open>getInjections(owner)\<close> for the owner at address 7: the
  injections object is at address 4.\<close>

definition demo_bag :: world where
  "demo_bag = snd (Storage_getInjections env_dev demo_ctor (Obj 7) demo_world)"

text \<open>The state after \<^verbatim>\<open>new f(owner)\<close> for the owner at address 7.\<close>

definition demo_cached :: world where
  "demo_cached = snd (ctor_new env_dev demo_ctor [Obj 7] demo_world)"

text \<open>\<^verbatim>\<open>inject.service('a').service('a').into(function g() {})\<close>: the property
  \<^verbatim>\<open>a\<close> is defined twice.\<close>

definition dup_ctor :: ctor where
  "dup_ctor =
     \<lparr>cid = 3, c_polaris = False,
      c_properties = [ServiceRule ''a'' (Str ''service:a''), ServiceRule ''a'' (Str ''service:a'')],
      c_finalize = Into g_body, c_name = ''g''\<rparr>"

definition dup_world :: world where
  "dup_world =
     snd (Builder_into False 2 ''g'' g_body
       (snd (Builder_service 1 ''a'' None
         (snd (Builder_service inject ''a'' None init_world)))))"

definition dup_world1 :: world where
  "dup_world1 = snd (Storage_getInjections env_dev dup_ctor (Obj 7) dup_world)"

definition dup_world2 :: world where
  "dup_world2 = snd (Storage_getInjections env_dev dup_ctor (Obj 7) dup_world1)"

text \<open>\<^verbatim>\<open>inject.build(() => { throw 'setup failed' })\<close>: a callback with no name that
  throws.\<close>

definition bad_ctor :: ctor where
  "bad_ctor =
     \<lparr>cid = 1, c_polaris = False, c_properties = [],
      c_finalize = Build failing_callback, c_name = []\<rparr>"

definition bad_world :: world where
  "bad_world = snd (Builder_build False inject [] failing_callback init_world)"

definition bad_world1 :: world where
  "bad_world1 = snd (Storage_getInjected env_dev bad_ctor (Obj 7) bad_world)"

definition bad_world2 :: world where
  "bad_world2 = snd (Storage_getInjected env_dev bad_ctor (Obj 7) bad_world1)"

text \<open>\<^verbatim>\<open>inject.service('missing').into(function h() { return this.missing; })\<close>: a
  service the owner does not have.\<close>

definition miss_ctor :: ctor where
  "miss_ctor =
     \<lparr>cid = 2, c_polaris = False,
      c_properties = [ServiceRule ''missing'' (Str ''service:missing'')],
      c_finalize = Into h_body, c_name = ''h''\<rparr>"

definition miss_world :: world where
  "miss_world =
     snd (Builder_into False 1 ''h'' h_body
       (snd (Builder_service inject ''missing'' None init_world)))"

text \<open>Its injections object for the owner at address 7, and two reads of the
  property.\<close>

definition miss_bag :: world where
  "miss_bag = snd (Storage_getInjections env_dev miss_ctor (Obj 7) miss_world)"

definition miss_read1 :: "(err + val) \<times> world" where
  "miss_read1 = read env_dev 1 (Obj 3) ''missing'' miss_bag"

definition miss_read2 :: "(err + val) \<times> world" where
  "miss_read2 = read env_dev 1 (Obj 3) ''missing'' (snd miss_read1)"

text \<open>\<^verbatim>\<open>inject.build(() => () => 1)\<close>: the callback has no name, so the constructor
  has none.\<close>

definition anon_ctor :: ctor where
  "anon_ctor =
     \<lparr>cid = 1, c_polaris = False, c_properties = [],
      c_finalize = Build one_callback, c_name = []\<rparr>"

definition anon_world :: world where
  "anon_world = snd (Builder_build False inject [] one_callback init_world)"

text \<open>The module's initial state after \<^verbatim>\<open>const flag = {}\<close>: the object is at
  address 1.\<close>

definition flag_world :: world where
  "flag_world = new_object init_world"

text \<open>
  \<^verbatim>\<open>const C = inject.build(() => { if (flag.entered) return () => 1; flag.entered = true; const inner = new C(owner); return () => inner })\<close>
  for the owner at address 7: the first run of the callback calls the constructor it
  belongs to, which is at address 2.
\<close>

definition inner_body :: "err + val \<Rightarrow> body" where
  "inner_body r args = Done (case r of Inl e \<Rightarrow> Undefined | Inr g \<Rightarrow> g)"

definition again_callback :: "body prog" where
  "again_callback =
     GetOf (Obj 1) ''entered'' (\<lambda>r.
       if r = Inr (Bool True) then Done one_body
       else AssignTo True (Obj 1) ''entered'' (Bool True) (\<lambda>u.
              New 2 [Obj 7] (\<lambda>r. case r of
                  Inl e \<Rightarrow> Throw e
                | Inr g \<Rightarrow> Done (inner_body (Inr g)))))"

definition again_ctor :: ctor where
  "again_ctor =
     \<lparr>cid = 2, c_polaris = False, c_properties = [],
      c_finalize = Build again_callback, c_name = []\<rparr>"

definition again_world :: world where
  "again_world = snd (Builder_build False inject [] again_callback flag_world)"

definition again_world1 :: world where
  "again_world1 = snd (ctor_new env_dev again_ctor [Obj 7] again_world)"

text \<open>
  \<^verbatim>\<open>inject.property('p', function () { if (flag.entered) return 1; flag.entered = true; this.p; return 2 }).into(g)\<close>:
  the first run of the callback reads the property it computes. The constructor is at
  address 3, its injections object for the owner at address 7 at address 4.
\<close>

definition self_reading :: "val \<Rightarrow> val prog" where
  "self_reading owner =
     GetOf (Obj 1) ''entered'' (\<lambda>r.
       if r = Inr (Bool True) then Done (Num 1)
       else AssignTo True (Obj 1) ''entered'' (Bool True) (\<lambda>u.
              Get ''p'' (\<lambda>r. case r of Inl e \<Rightarrow> Throw e | Inr v \<Rightarrow> Done (Num 2))))"

definition self_ctor :: ctor where
  "self_ctor =
     \<lparr>cid = 3, c_polaris = False, c_properties = [PropertyRule ''p'' self_reading],
      c_finalize = Into g_body, c_name = ''g''\<rparr>"

definition self_world :: world where
  "self_world =
     snd (Builder_into False 2 ''g'' g_body
       (snd (Builder_property inject ''p'' self_reading flag_world)))"

definition self_bag :: world where
  "self_bag = snd (Storage_getInjections env_dev self_ctor (Obj 7) self_world)"

definition self_read :: "(err + val) \<times> world" where
  "self_read = read env_dev (stack env_dev) (Obj 4) ''p'' self_bag"

text \<open>
  \<^verbatim>\<open>inject.property('q', () => { throw 'boom' }).into(g)\<close>: a property callback that
  throws. Its injections object for the owner at address 7 is at address 3.
\<close>

definition throwing :: "val \<Rightarrow> val prog" where
  "throwing owner = Throw (Thrown (Str ''boom''))"

definition boom_ctor :: ctor where
  "boom_ctor =
     \<lparr>cid = 2, c_polaris = False, c_properties = [PropertyRule ''q'' throwing],
      c_finalize = Into g_body, c_name = ''g''\<rparr>"

definition boom_world :: world where
  "boom_world =
     snd (Builder_into False 1 ''g'' g_body
       (snd (Builder_property inject ''q'' throwing init_world)))"

definition boom_bag :: world where
  "boom_bag = snd (Storage_getInjections env_dev boom_ctor (Obj 7) boom_world)"

text \<open>
  \<^verbatim>\<open>inject.build(() => { const g = new f(owner); g(3); return () => 1 })\<close>, declared
  after the example constructor \<^verbatim>\<open>f\<close> (which is at address 3) for the owner at
  address 7: the callback instantiates \<^verbatim>\<open>f\<close> and calls the function it gets.
\<close>

definition calling_callback :: "body prog" where
  "calling_callback =
     New 3 [Obj 7] (\<lambda>r. case r of
         Inl e \<Rightarrow> Throw e
       | Inr g \<Rightarrow> Apply g [Num 3] (\<lambda>r'. Done one_body))"

definition calling_ctor :: ctor where
  "calling_ctor =
     \<lparr>cid = 4, c_polaris = False, c_properties = [],
      c_finalize = Build calling_callback, c_name = []\<rparr>"

definition calling_world :: world where
  "calling_world = snd (Builder_build False inject [] calling_callback demo_world)"

section \<open>The operations, spelled out\<close>

lemma read_0: "read env 0 t p w = (Inl (RangeError ''Maximum call stack size exceeded''), w)"
  by (simp add: read_def)

lemma read_Suc: "read env (Suc n) t p w = read_with env (perform env n) t p w"
  by (simp add: read_def)

lemma ctor_new_eq: "ctor_new env ct args w = Storage_getInjected env ct (first_arg args) w"
  by (simp add: ctor_new_def makeConstructor_def makeConstructor_with_def Storage_getInjected_def)

lemma ctor_call_eq:
  "ctor_call env ct this args w =
     (if isDevelopingApp env \<and> c_name ct \<noteq> [] then call_checked env ct this args w
      else call_unchecked env ct this args w)"
  by (simp add: ctor_call_def makeConstructor_def makeConstructor_with_def call_checked_def
      call_unchecked_def)

lemma call_checked_eq:
  "call_checked env ct this args w =
     (case assert (msg_no_context (c_name ct)) (is_object this) of
        Inl e \<Rightarrow> (Inl e, w)
      | Inr u \<Rightarrow>
     (case getOwner env this of
        Inl e \<Rightarrow> (Inl e, w)
      | Inr owner \<Rightarrow>
     (case assert (msg_bad_context (c_name ct)) (truthy owner) of
        Inl e \<Rightarrow> (Inl e, w)
      | Inr u \<Rightarrow>
          (case Storage_getInjected env ct owner w of
             (Inl e, w1) \<Rightarrow> (Inl e, w1)
           | (Inr f, w1) \<Rightarrow> invoke env f args w1))))"
  unfolding call_checked_def call_checked_with_def Storage_getInjected_def invoke_def ..

lemma call_unchecked_eq:
  "call_unchecked env ct this args w =
     (case getOwner env this of
        Inl e \<Rightarrow> (Inl e, w)
      | Inr owner \<Rightarrow>
          (case Storage_getInjected env ct owner w of
             (Inl e, w1) \<Rightarrow> (Inl e, w1)
           | (Inr f, w1) \<Rightarrow> invoke env f args w1))"
  unfolding call_unchecked_def call_unchecked_with_def Storage_getInjected_def invoke_def ..


lemma apply_finalize_eq:
  "apply_finalize env fin bag w =
     (case fin of
        Into fn \<Rightarrow> (case new_func fn bag w of (f, w') \<Rightarrow> (Inr f, w'))
      | Build callback \<Rightarrow>
          (case exec (perform env (stack env)) bag callback w of
             (Inl e, w') \<Rightarrow> (Inl e, w')
           | (Inr b, w') \<Rightarrow> (case new_func b bag w' of (f, w'') \<Rightarrow> (Inr f, w''))))"
  by (simp add: apply_finalize_def apply_finalize_with_def)

lemma invoke_eq:
  "invoke env f args w =
     (case f of
        Fun a \<Rightarrow>
          (case funcs w a of
             None \<Rightarrow> (Inl (TypeError ''not a function''), w)
           | Some fr \<Rightarrow>
               exec (perform env (stack env)) (fthis fr) (fbody fr args) (log (Invoke a args) w))
      | other \<Rightarrow> (Inl (TypeError ''not a function''), w))"
  by (simp add: invoke_def invoke_with_def)

section \<open>Rule evaluation\<close>

lemma defineProperty_new:
  "objects w a = Some ob \<Longrightarrow> \<not> frozen ob \<Longrightarrow> props ob p = None \<Longrightarrow>
   Object_defineProperty a p s w =
     (Inr (), w\<lparr>objects := (objects w)(a \<mapsto> ob\<lparr>props := (props ob)(p \<mapsto> s)\<rparr>)\<rparr>)"
  by (simp add: Object_defineProperty_def put_slot_def)

lemma defineProperty_cases:
  "objects w a = Some ob \<Longrightarrow>
   (\<exists>e. Object_defineProperty a p s w = (Inl e, w)) \<or>
   Object_defineProperty a p s w =
     (Inr (), w\<lparr>objects := (objects w)(a \<mapsto> ob\<lparr>props := (props ob)(p \<mapsto> s)\<rparr>)\<rparr>)"
  by (simp add: Object_defineProperty_def put_slot_def split: option.splits slot.splits)

lemma defineProperty_frozen:
  "objects w a = Some ob \<Longrightarrow> frozen ob \<Longrightarrow>
   \<exists>m. Object_defineProperty a p s w = (Inl (TypeError m), w)"
  by (simp add: Object_defineProperty_def split: option.splits slot.splits)

lemma defineProperty_accessor:
  "objects w a = Some ob \<Longrightarrow> props ob p = Some old \<Longrightarrow> (\<forall>v. old \<noteq> DataSlot v) \<Longrightarrow>
   Object_defineProperty a p s w = (Inl (TypeError (''Cannot redefine property: '' @ p)), w)"
  by (cases old) (simp_all add: Object_defineProperty_def)

lemma define_all_shape:
  "objects w a = Some ob \<Longrightarrow>
   \<exists>ob'. snd (define_all rs owner a w) = w\<lparr>objects := (objects w)(a \<mapsto> ob')\<rparr> \<and>
         frozen ob' = frozen ob \<and> scope_of ob' = scope_of ob"
proof (induction rs arbitrary: w ob)
  case Nil
  have "snd (define_all [] owner a w) = w\<lparr>objects := (objects w)(a \<mapsto> ob)\<rparr>"
    using Nil by (simp add: fun_upd_idem)
  then show ?case by blast
next
  case (Cons r rs)
  from defineProperty_cases [OF Cons.prems, of "rule_name r" "rule_slot r owner"]
  show ?case
  proof
    assume "\<exists>e. Object_defineProperty a (rule_name r) (rule_slot r owner) w = (Inl e, w)"
    then obtain e where "define_rule r owner a w = (Inl e, w)" by (auto simp: define_rule_def)
    then have "snd (define_all (r # rs) owner a w) = w\<lparr>objects := (objects w)(a \<mapsto> ob)\<rparr>"
      using Cons.prems by (simp add: fun_upd_idem)
    then show ?thesis by blast
  next
    let ?ob1 = "ob\<lparr>props := (props ob)(rule_name r \<mapsto> rule_slot r owner)\<rparr>"
    let ?w1 = "w\<lparr>objects := (objects w)(a \<mapsto> ?ob1)\<rparr>"
    assume "Object_defineProperty a (rule_name r) (rule_slot r owner) w = (Inr (), ?w1)"
    then have d: "define_rule r owner a w = (Inr (), ?w1)" by (simp add: define_rule_def)
    have "objects ?w1 a = Some ?ob1" by simp
    from Cons.IH [OF this] obtain ob' where
      ih: "snd (define_all rs owner a ?w1) = ?w1\<lparr>objects := (objects ?w1)(a \<mapsto> ob')\<rparr>"
      and fr: "frozen ob' = frozen ?ob1" and sc: "scope_of ob' = scope_of ?ob1" by blast
    have e: "?w1\<lparr>objects := (objects ?w1)(a \<mapsto> ob')\<rparr> = w\<lparr>objects := (objects w)(a \<mapsto> ob')\<rparr>"
      by simp
    have "snd (define_all (r # rs) owner a w) = snd (define_all rs owner a ?w1)"
      using d by simp
    then have "snd (define_all (r # rs) owner a w) = w\<lparr>objects := (objects w)(a \<mapsto> ob')\<rparr>"
      using ih e by simp
    moreover have "frozen ob' = frozen ob" using fr by simp
    moreover have "scope_of ob' = scope_of ob" using sc by simp
    ultimately show ?thesis by blast
  qed
qed

lemma define_all_ok:
  "objects w a = Some ob \<Longrightarrow> \<not> frozen ob \<Longrightarrow> distinct (map rule_name rs) \<Longrightarrow>
   (\<forall>r \<in> set rs. props ob (rule_name r) = None) \<Longrightarrow>
   define_all rs owner a w =
     (Inr (), w\<lparr>objects := (objects w)(a \<mapsto>
        ob\<lparr>props := props ob ++ map_of (map (\<lambda>r. (rule_name r, rule_slot r owner)) rs)\<rparr>)\<rparr>)"
proof (induction rs arbitrary: w ob)
  case Nil
  then show ?case by (simp add: fun_upd_idem)
next
  case (Cons r rs)
  let ?ob1 = "ob\<lparr>props := (props ob)(rule_name r \<mapsto> rule_slot r owner)\<rparr>"
  let ?w1 = "w\<lparr>objects := (objects w)(a \<mapsto> ?ob1)\<rparr>"
  have d: "define_rule r owner a w = (Inr (), ?w1)"
    using Cons.prems by (simp add: define_rule_def defineProperty_new)
  have 1: "objects ?w1 a = Some ?ob1" by simp
  have 2: "\<not> frozen ?ob1" using Cons.prems by simp
  have 3: "distinct (map rule_name rs)" using Cons.prems by simp
  have 4: "\<forall>r' \<in> set rs. props ?ob1 (rule_name r') = None"
    using Cons.prems by (auto simp: image_iff)
  have notin: "rule_name r \<notin> dom (map_of (map (\<lambda>r. (rule_name r, rule_slot r owner)) rs))"
    using Cons.prems by (auto simp: dom_map_of_conv_image_fst image_image)
  let ?M = "map_of (map (\<lambda>r. (rule_name r, rule_slot r owner)) rs)"
  have m: "props ?ob1 ++ ?M = props ob ++ map_of (map (\<lambda>r. (rule_name r, rule_slot r owner)) (r # rs))"
    using notin by (simp add: map_add_upd_left)
  have ih: "define_all rs owner a ?w1 =
     (Inr (), ?w1\<lparr>objects := (objects ?w1)(a \<mapsto> ?ob1\<lparr>props := props ?ob1 ++ ?M\<rparr>)\<rparr>)"
    by (rule Cons.IH [OF 1 2 3 4])
  have e: "?w1\<lparr>objects := (objects ?w1)(a \<mapsto> ?ob1\<lparr>props := props ?ob1 ++ ?M\<rparr>)\<rparr> =
     w\<lparr>objects := (objects w)(a \<mapsto>
        ob\<lparr>props := props ob ++ map_of (map (\<lambda>r. (rule_name r, rule_slot r owner)) (r # rs))\<rparr>)\<rparr>"
    unfolding m [symmetric] by simp
  have "define_all (r # rs) owner a w = define_all rs owner a ?w1" using d by simp
  then show ?case unfolding ih e .
qed

lemma define_all_trace: "trace (snd (define_all rs owner a w)) = trace w"
proof (cases "objects w a")
  case None
  then show ?thesis
    by (cases rs) (simp_all add: define_rule_def Object_defineProperty_def)
next
  case (Some ob)
  from define_all_shape [OF this, of rs owner] show ?thesis by auto
qed

lemma Builder_getInjections_shape:
  "\<exists>ob'. snd (Builder_getInjections pol rs owner w) =
            w\<lparr>nxt := Suc (nxt w), objects := (objects w)(nxt w \<mapsto> ob')\<rparr> \<and>
         ((\<exists>e. fst (Builder_getInjections pol rs owner w) = Inl e) \<or>
          (fst (Builder_getInjections pol rs owner w) = Inr (Obj (nxt w)) \<and> frozen ob'))"
proof -
  let ?ob0 = "\<lparr>props = Map.empty, frozen = False, scope_of = None\<rparr>"
  let ?w0 = "w\<lparr>nxt := Suc (nxt w), objects := (objects w)(nxt w \<mapsto> ?ob0)\<rparr>"
  have "objects ?w0 (nxt w) = Some ?ob0" by simp
  from define_all_shape [OF this, of rs owner] obtain ob' where
    s: "snd (define_all rs owner (nxt w) ?w0) = ?w0\<lparr>objects := (objects ?w0)(nxt w \<mapsto> ob')\<rparr>"
    by blast
  obtain r w1 where d: "define_all rs owner (nxt w) ?w0 = (r, w1)"
    by (cases "define_all rs owner (nxt w) ?w0")
  have w1: "w1 = w\<lparr>nxt := Suc (nxt w), objects := (objects w)(nxt w \<mapsto> ob')\<rparr>"
    using s d by simp
  show ?thesis
  proof (cases r)
    case (Inl e)
    then show ?thesis using d w1 by (auto simp: Builder_getInjections_def Let_def)
  next
    case (Inr u)
    then show ?thesis using d w1
      by (auto simp: Builder_getInjections_def Let_def Object_freeze_def setScope_def)
  qed
qed

lemma Builder_getInjections_ok:
  assumes "distinct (map rule_name rs)"
  shows "Builder_getInjections pol rs owner w =
     (Inr (Obj (nxt w)),
      w\<lparr>nxt := Suc (nxt w),
        objects := (objects w)(nxt w \<mapsto>
          \<lparr>props = map_of (map (\<lambda>r. (rule_name r, rule_slot r owner)) rs), frozen = True,
           scope_of = (if pol then Some owner else None)\<rparr>)\<rparr>)"
proof -
  let ?ob0 = "\<lparr>props = Map.empty, frozen = False, scope_of = None\<rparr>"
  let ?w0 = "w\<lparr>nxt := Suc (nxt w), objects := (objects w)(nxt w \<mapsto> ?ob0)\<rparr>"
  have "define_all rs owner (nxt w) ?w0 =
     (Inr (), ?w0\<lparr>objects := (objects ?w0)(nxt w \<mapsto>
        ?ob0\<lparr>props := props ?ob0 ++ map_of (map (\<lambda>r. (rule_name r, rule_slot r owner)) rs)\<rparr>)\<rparr>)"
    by (rule define_all_ok) (use assms in simp_all)
  then show ?thesis
    by (simp add: Builder_getInjections_def Let_def Object_freeze_def setScope_def)
qed

lemma Builder_getInjections_trace:
  "trace (snd (Builder_getInjections pol rs owner w)) = trace w"
  using Builder_getInjections_shape [of pol rs owner w] by auto

section \<open>The two Storage methods\<close>

lemma wf_log: "wf_world (log e w) = wf_world w"
  by (simp add: wf_world_def log_def)

lemma WeakMap_get_truthy:
  "truthy (WeakMap_get m c k) \<Longrightarrow> is_weak_key k \<and> m (c, k) = Some (WeakMap_get m c k)"
  by (auto simp: WeakMap_get_def split: if_splits option.splits)

lemma WeakMap_set_key: "WeakMap_set m c k v = Inr m' \<Longrightarrow> is_weak_key k"
  by (auto simp: WeakMap_set_def split: if_splits)

lemma WeakMap_set_eq: "WeakMap_set m c k v = Inr m' \<Longrightarrow> m' = m((c, k) \<mapsto> v)"
  by (auto simp: WeakMap_set_def split: if_splits)

lemma WeakMap_set_get: "WeakMap_set m c k v = Inr m' \<Longrightarrow> WeakMap_get m' c k = v"
  by (auto simp: WeakMap_set_def WeakMap_get_def split: if_splits)

lemma getInjections_cached:
  "\<not> isDestroying env owner \<Longrightarrow> \<not> isDestroyed env owner \<Longrightarrow>
   truthy (WeakMap_get (injections w) (cid ct) owner) \<Longrightarrow>
   Storage_getInjections env ct owner w = (Inr (WeakMap_get (injections w) (cid ct) owner), w)"
  by (simp add: Storage_getInjections_def assert_def)

lemma getInjected_with_cached:
  "\<not> isDestroying env owner \<Longrightarrow> \<not> isDestroyed env owner \<Longrightarrow>
   truthy (WeakMap_get (injected w) (cid ct) owner) \<Longrightarrow>
   Storage_getInjected_with h env ct owner w =
     (Inr (WeakMap_get (injected w) (cid ct) owner), w)"
  by (simp add: Storage_getInjected_with_def assert_def)

lemma getInjected_with_dead:
  "isDestroying env owner \<or> isDestroyed env owner \<Longrightarrow>
   snd (Storage_getInjected_with h env ct owner w) = w"
  by (auto simp: Storage_getInjected_with_def assert_def)

lemma getInjections_dead:
  "isDestroying env owner \<or> isDestroyed env owner \<Longrightarrow>
   snd (Storage_getInjections env ct owner w) = w"
  by (auto simp: Storage_getInjections_def assert_def)

lemma getInjections_alive:
  "Storage_getInjections env ct owner w = (Inr b, w1) \<Longrightarrow>
   \<not> isDestroying env owner \<and> \<not> isDestroyed env owner"
  by (auto simp: Storage_getInjections_def assert_def split: if_splits)

lemma getInjected_with_alive:
  "Storage_getInjected_with h env ct owner w = (Inr f, w1) \<Longrightarrow>
   \<not> isDestroying env owner \<and> \<not> isDestroyed env owner"
  by (auto simp: Storage_getInjected_with_def assert_def split: if_splits)

text \<open>The uncached branch of getInjections, spelled out.\<close>

lemma getInjections_uncached:
  assumes "\<not> isDestroying env owner" "\<not> isDestroyed env owner"
    and "\<not> truthy (WeakMap_get (injections w) (cid ct) owner)"
  shows "Storage_getInjections env ct owner w =
     (case Builder_getInjections (c_polaris ct) (c_properties ct) owner
                (log (RulesRun (cid ct) owner) w) of
           (Inl e, w1) \<Rightarrow> (Inl e, w1)
         | (Inr b, w1) \<Rightarrow>
             (case WeakMap_set (injections w1) (cid ct) owner b of
                Inl e \<Rightarrow> (Inl e, w1)
              | Inr m \<Rightarrow> (Inr b, w1\<lparr>injections := m\<rparr>)))"
  using assms by (simp add: Storage_getInjections_def assert_def)

lemma getInjections_result:
  assumes "Storage_getInjections env ct owner w = (Inr b, w1)"
  shows "WeakMap_get (injections w1) (cid ct) owner = b \<and> truthy b"
proof -
  note alive = getInjections_alive [OF assms]
  show ?thesis
  proof (cases "truthy (WeakMap_get (injections w) (cid ct) owner)")
    case True
    then show ?thesis using assms alive by (auto simp: getInjections_cached)
  next
    case False
    let ?w0 = "log (RulesRun (cid ct) owner) w"
    obtain r w' where B: "Builder_getInjections (c_polaris ct) (c_properties ct) owner ?w0 = (r, w')"
      by (cases "Builder_getInjections (c_polaris ct) (c_properties ct) owner ?w0")
    from Builder_getInjections_shape [of "c_polaris ct" "c_properties ct" owner ?w0] B
    have r: "(\<exists>e. r = Inl e) \<or> r = Inr (Obj (nxt ?w0))" by auto
    have eq: "Storage_getInjections env ct owner w =
         (case r of Inl e \<Rightarrow> (Inl e, w') | Inr b \<Rightarrow>
             (case WeakMap_set (injections w') (cid ct) owner b of
                Inl e \<Rightarrow> (Inl e, w')
              | Inr m \<Rightarrow> (Inr b, w'\<lparr>injections := m\<rparr>)))"
      using False alive B by (simp add: getInjections_uncached split: sum.splits)
    from r show ?thesis
    proof
      assume "\<exists>e. r = Inl e"
      then show ?thesis using eq assms by auto
    next
      assume ro: "r = Inr (Obj (nxt ?w0))"
      show ?thesis
      proof (cases "WeakMap_set (injections w') (cid ct) owner (Obj (nxt ?w0))")
        case (Inl e)
        then show ?thesis using eq assms ro by simp
      next
        case (Inr m)
        have wg: "WeakMap_get m (cid ct) owner = Obj (nxt ?w0)" by (rule WeakMap_set_get [OF Inr])
        have "Storage_getInjections env ct owner w = (Inr (Obj (nxt ?w0)), w'\<lparr>injections := m\<rparr>)"
          using eq ro Inr by simp
        then have "b = Obj (nxt ?w0)" and "w1 = w'\<lparr>injections := m\<rparr>" using assms by simp_all
        then show ?thesis using wg by simp
      qed
    qed
  qed
qed

lemma getInjections_memo:
  assumes "Storage_getInjections env ct owner w = (Inr b, w1)"
  shows "Storage_getInjections env ct owner w1 = (Inr b, w1)"
  using getInjections_result [OF assms] getInjections_alive [OF assms]
  by (simp add: getInjections_cached)

lemma new_func_eq:
  "new_func b t w = (Fun (nxt w), w\<lparr>nxt := Suc (nxt w), funcs := (funcs w)(nxt w \<mapsto> \<lparr>fbody = b, fthis = t\<rparr>)\<rparr>)"
  by (simp add: new_func_def)

text \<open>Finalize returns a function object it has just allocated, bound to the injections.\<close>

lemma apply_finalize_with_cases:
  "(\<exists>e. apply_finalize_with h fin bag w = (Inl e, snd (apply_finalize_with h fin bag w)) \<and>
        (\<exists>cb. fin = Build cb \<and> exec h bag cb w = (Inl e, snd (apply_finalize_with h fin bag w)))) \<or>
   (\<exists>w' b. (fin = Into b \<and> w' = w \<or> (\<exists>cb. fin = Build cb \<and> exec h bag cb w = (Inr b, w'))) \<and>
      apply_finalize_with h fin bag w =
        (Inr (Fun (nxt w')),
         w'\<lparr>nxt := Suc (nxt w'), funcs := (funcs w')(nxt w' \<mapsto> \<lparr>fbody = b, fthis = bag\<rparr>)\<rparr>))"
proof (cases fin)
  case (Into fn)
  then show ?thesis by (simp add: apply_finalize_with_def new_func_def)
next
  case (Build cb)
  obtain r w' where x: "exec h bag cb w = (r, w')" by (cases "exec h bag cb w")
  show ?thesis
  proof (cases r)
    case (Inl e)
    then show ?thesis using Build x by (simp add: apply_finalize_with_def)
  next
    case (Inr b)
    then have "apply_finalize_with h fin bag w =
        (Inr (Fun (nxt w')),
         w'\<lparr>nxt := Suc (nxt w'), funcs := (funcs w')(nxt w' \<mapsto> \<lparr>fbody = b, fthis = bag\<rparr>)\<rparr>)"
      using Build x by (simp add: apply_finalize_with_def new_func_def)
    then show ?thesis using Build x Inr by blast
  qed
qed

lemma apply_finalize_with_Inr:
  assumes "apply_finalize_with h fin bag w = (Inr f, w2)"
  shows "\<exists>w' b. f = Fun (nxt w') \<and>
           w2 = w'\<lparr>nxt := Suc (nxt w'), funcs := (funcs w')(nxt w' \<mapsto> \<lparr>fbody = b, fthis = bag\<rparr>)\<rparr>"
  using apply_finalize_with_cases [of h fin bag w] assms by auto

lemma apply_finalize_with_Into:
  "apply_finalize_with h (Into fn) bag w =
     (Inr (Fun (nxt w)), w\<lparr>nxt := Suc (nxt w), funcs := (funcs w)(nxt w \<mapsto> \<lparr>fbody = fn, fthis = bag\<rparr>)\<rparr>)"
  by (simp add: apply_finalize_with_def new_func_def)

lemma getInjected_with_uncached:
  assumes "\<not> isDestroying env owner" "\<not> isDestroyed env owner"
    and "\<not> truthy (WeakMap_get (injected w) (cid ct) owner)"
  shows "Storage_getInjected_with h env ct owner w =
        (case Storage_getInjections env ct owner w of
           (Inl e, w1) \<Rightarrow> (Inl e, w1)
         | (Inr bag, w1) \<Rightarrow>
             (case apply_finalize_with h (c_finalize ct) bag (log (FinalizeRun (cid ct) owner) w1) of
                (Inl e, w2) \<Rightarrow> (Inl e, w2)
              | (Inr f, w2) \<Rightarrow>
                  (case WeakMap_set (injected w2) (cid ct) owner f of
                     Inl e \<Rightarrow> (Inl e, w2)
                   | Inr m \<Rightarrow> (Inr f, w2\<lparr>injected := m\<rparr>))))"
  using assms by (simp add: Storage_getInjected_with_def assert_def)

lemma getInjected_with_result:
  assumes "Storage_getInjected_with h env ct owner w = (Inr f, w1)"
  shows "WeakMap_get (injected w1) (cid ct) owner = f \<and> truthy f"
proof -
  note alive = getInjected_with_alive [OF assms]
  show ?thesis
  proof (cases "truthy (WeakMap_get (injected w) (cid ct) owner)")
    case True
    then show ?thesis using assms alive by (auto simp: getInjected_with_cached)
  next
    case False
    obtain r wa where gi: "Storage_getInjections env ct owner w = (r, wa)"
      by (cases "Storage_getInjections env ct owner w")
    show ?thesis
    proof (cases r)
      case (Inl e)
      then show ?thesis using assms alive False gi by (simp add: getInjected_with_uncached)
    next
      case (Inr bag)
      let ?wl = "log (FinalizeRun (cid ct) owner) wa"
      obtain r2 w2 where af: "apply_finalize_with h (c_finalize ct) bag ?wl = (r2, w2)"
        by (cases "apply_finalize_with h (c_finalize ct) bag ?wl")
      show ?thesis
      proof (cases r2)
        case (Inl e)
        then show ?thesis using assms alive False gi Inr af by (simp add: getInjected_with_uncached)
      next
        case (Inr g)
        note g = this
        from apply_finalize_with_Inr [OF af [unfolded g]] obtain a where ga: "g = Fun a" by blast
        show ?thesis
        proof (cases "WeakMap_set (injected w2) (cid ct) owner g")
          case (Inl e)
          then show ?thesis using assms alive False gi \<open>r = Inr bag\<close> af g
            by (simp add: getInjected_with_uncached)
        next
          case (Inr m)
          have wg: "WeakMap_get m (cid ct) owner = g" by (rule WeakMap_set_get [OF Inr])
          have "Storage_getInjected_with h env ct owner w = (Inr g, w2\<lparr>injected := m\<rparr>)"
            using alive False gi \<open>r = Inr bag\<close> af g Inr by (simp add: getInjected_with_uncached)
          then have fe: "f = g" and we: "w1 = w2\<lparr>injected := m\<rparr>" using assms by simp_all
          have "truthy g" using ga by simp
          then show ?thesis using wg fe we by simp
        qed
      qed
    qed
  qed
qed

lemma getInjections_stored:
  assumes "Storage_getInjections env ct owner w = (Inr b, w1)"
  shows "is_weak_key owner \<and> injections w1 (cid ct, owner) = Some b"
  using getInjections_result [OF assms] WeakMap_get_truthy [of "injections w1" "cid ct" owner]
  by auto

lemma getInjected_with_stored:
  assumes "Storage_getInjected_with h env ct owner w = (Inr f, w1)"
  shows "is_weak_key owner \<and> injected w1 (cid ct, owner) = Some f"
  using getInjected_with_result [OF assms] WeakMap_get_truthy [of "injected w1" "cid ct" owner]
  by auto

text \<open>The same for the operations as the host calls them.\<close>

lemma getInjected_cached:
  "\<not> isDestroying env owner \<Longrightarrow> \<not> isDestroyed env owner \<Longrightarrow>
   truthy (WeakMap_get (injected w) (cid ct) owner) \<Longrightarrow>
   Storage_getInjected env ct owner w = (Inr (WeakMap_get (injected w) (cid ct) owner), w)"
  by (simp add: Storage_getInjected_def getInjected_with_cached)

lemma getInjected_alive:
  "Storage_getInjected env ct owner w = (Inr f, w1) \<Longrightarrow>
   \<not> isDestroying env owner \<and> \<not> isDestroyed env owner"
  unfolding Storage_getInjected_def by (rule getInjected_with_alive)


lemma getInjected_result:
  assumes "Storage_getInjected env ct owner w = (Inr f, w1)"
  shows "WeakMap_get (injected w1) (cid ct) owner = f \<and> truthy f"
  using assms unfolding Storage_getInjected_def by (rule getInjected_with_result)

lemma getInjected_memo:
  assumes "Storage_getInjected env ct owner w = (Inr f, w1)"
  shows "Storage_getInjected env ct owner w1 = (Inr f, w1)"
  using getInjected_result [OF assms] getInjected_alive [OF assms]
  by (simp add: getInjected_cached)

lemma getInjected_stored:
  assumes "Storage_getInjected env ct owner w = (Inr f, w1)"
  shows "is_weak_key owner \<and> injected w1 (cid ct, owner) = Some f"
  using assms unfolding Storage_getInjected_def by (rule getInjected_with_stored)




section \<open>Composite operations and the user code they run\<close>

text \<open>
  A relation between the state before and the state after that is reflexive and
  transitive and holds of the elementary steps holds of the composite operations,
  whatever user code they run, as long as it holds of what performs the requests of
  that code.
\<close>

lemma exec_rel:
  assumes rp: "reflp R" and tp: "transp R"
    and asg: "\<And>strict t p v w. R w (snd (assign strict t p v w))" "\<And>w. R w (new_object w)"
    and h: "\<And>rq w. R w (snd (h rq w))"
  shows "R w (snd (exec h t c w))"
proof -
  have refl: "\<And>w. R w w" using rp by (rule reflpD)
  have trans: "\<And>w w' w''. R w w' \<Longrightarrow> R w' w'' \<Longrightarrow> R w w''" using tp by (rule transpD)
  show ?thesis
  proof (induction c arbitrary: w)
    case (Done x)
    show ?case by (simp add: refl)
  next
    case (Throw e)
    show ?case by (simp add: refl)
  next
    case (Get p k)
    obtain r w' where r: "h (GetProp t p) w = (r, w')" by (cases "h (GetProp t p) w")
    have 1: "R w w'" using h [where rq = "GetProp t p" and w = w] r by simp
    have 2: "R w' (snd (exec h t (k r) w'))" by (rule Get.IH) simp
    show ?case using r trans [OF 1 2] by simp
  next
    case (Assign strict p v k)
    obtain r w' where r: "assign strict t p v w = (r, w')" by (cases "assign strict t p v w")
    have 1: "R w w'" using asg(1) [where strict = strict and t = t and p = p and v = v and w = w] r by simp
    have 2: "R w' (snd (exec h t (k r) w'))" by (rule Assign.IH) simp
    show ?case using r trans [OF 1 2] by simp
  next
    case (GetOf u p k)
    obtain r w' where r: "h (GetProp u p) w = (r, w')" by (cases "h (GetProp u p) w")
    have 1: "R w w'" using h [where rq = "GetProp u p" and w = w] r by simp
    have 2: "R w' (snd (exec h t (k r) w'))" by (rule GetOf.IH) simp
    show ?case using r trans [OF 1 2] by simp
  next
    case (AssignTo strict u p v k)
    obtain r w' where r: "assign strict u p v w = (r, w')" by (cases "assign strict u p v w")
    have 1: "R w w'" using asg(1) [where strict = strict and t = u and p = p and v = v and w = w] r by simp
    have 2: "R w' (snd (exec h t (k r) w'))" by (rule AssignTo.IH) simp
    show ?case using r trans [OF 1 2] by simp
  next
    case (Alloc k)
    have 1: "R w (new_object w)" by (rule asg(2))
    have 2: "R (new_object w) (snd (exec h t (k (Obj (nxt w))) (new_object w)))"
      by (rule Alloc.IH) simp
    show ?case using trans [OF 1 2] by simp
  next
    case (New c args k)
    obtain r w' where r: "h (Construct c args) w = (r, w')" by (cases "h (Construct c args) w")
    have 1: "R w w'" using h [where rq = "Construct c args" and w = w] r by simp
    have 2: "R w' (snd (exec h t (k r) w'))" by (rule New.IH) simp
    show ?case using r trans [OF 1 2] by simp
  next
    case (Call c this args k)
    obtain r w' where r: "h (CallCtor c this args) w = (r, w')"
      by (cases "h (CallCtor c this args) w")
    have 1: "R w w'" using h [where rq = "CallCtor c this args" and w = w] r by simp
    have 2: "R w' (snd (exec h t (k r) w'))" by (rule Call.IH) simp
    show ?case using r trans [OF 1 2] by simp
  next
    case (Apply f args k)
    obtain r w' where r: "h (CallFun f args) w = (r, w')" by (cases "h (CallFun f args) w")
    have 1: "R w w'" using h [where rq = "CallFun f args" and w = w] r by simp
    have 2: "R w' (snd (exec h t (k r) w'))" by (rule Apply.IH) simp
    show ?case using r trans [OF 1 2] by simp
  qed
qed

lemma invoke_with_rel:
  assumes rp: "reflp R" and tp: "transp R"
    and asg: "\<And>strict t p v w. R w (snd (assign strict t p v w))" "\<And>w. R w (new_object w)"
    and logi: "\<And>a args w. R w (log (Invoke a args) w)"
    and h: "\<And>rq w. R w (snd (h rq w))"
  shows "R w (snd (invoke_with h f args w))"
proof -
  have refl: "\<And>w. R w w" using rp by (rule reflpD)
  have trans: "\<And>w w' w''. R w w' \<Longrightarrow> R w' w'' \<Longrightarrow> R w w''" using tp by (rule transpD)
  show ?thesis
  proof -
    have "\<And>a (fr :: func). R w (snd (exec h (fthis fr) (fbody fr args) (log (Invoke a args) w)))"
      by (rule trans [OF logi]) (rule exec_rel [of R, OF rp tp asg h])
    then show ?thesis by (simp add: invoke_with_def refl split: val.splits option.splits)
  qed
qed

lemma read_with_rel:
  assumes rp: "reflp R" and tp: "transp R"
    and asg: "\<And>strict t p v w. R w (snd (assign strict t p v w))" "\<And>w. R w (new_object w)"
    and logl: "\<And>owner tok w. R w (log (LookupCall owner tok) w)"
    and logc: "\<And>p owner w. R w (log (CallbackCall p owner) w)"
    and put: "\<And>a p s w. R w (put_slot a p s w)"
    and h: "\<And>rq w. R w (snd (h rq w))"
  shows "R w (snd (read_with env h t p w))"
proof -
  have refl: "\<And>w. R w w" using rp by (rule reflpD)
  have trans: "\<And>w w' w''. R w w' \<Longrightarrow> R w' w'' \<Longrightarrow> R w w''" using tp by (rule transpD)
  show ?thesis
  proof (cases t)
    case (Obj a)
    show ?thesis
    proof (cases "objects w a")
      case None
      then show ?thesis using Obj by (simp add: read_with_def refl)
    next
      case (Some ob)
      note ob = this
      show ?thesis
      proof (cases "props ob p")
        case None
        then show ?thesis using Obj ob by (simp add: read_with_def refl)
      next
        case (Some sl)
        note sl = this
        show ?thesis
        proof (cases sl)
          case (OwnerSlot ow)
          then show ?thesis using Obj ob sl by (simp add: read_with_def refl)
        next
          case (ServiceSlot ow tok cell)
          have l: "R w (log (LookupCall ow tok) w)" by (rule logl)
          have lp: "\<And>s. R w (put_slot a p s (log (LookupCall ow tok) w))"
            by (rule trans [OF l put])
          show ?thesis using Obj ob sl ServiceSlot l lp
            by (simp add: read_with_def refl split: option.splits sum.splits)
        next
          case (PropertySlot ow cb cell)
          let ?w0 = "log (CallbackCall p ow) w"
          obtain r w' where r: "exec h t (cb ow) ?w0 = (r, w')"
            by (cases "exec h t (cb ow) ?w0")
          have l: "R w ?w0" by (rule logc)
          have "R ?w0 (snd (exec h t (cb ow) ?w0))" by (rule exec_rel [of R, OF rp tp asg h])
          then have "R ?w0 w'" using r by simp
          then have 1: "R w w'" by (rule trans [OF l])
          have 2: "\<And>s. R w (put_slot a p s w')" by (rule trans [OF 1 put])
          show ?thesis using Obj ob sl PropertySlot r 1 2
            by (simp add: read_with_def refl split: option.splits sum.splits)
        next
          case (DataSlot v)
          then show ?thesis using Obj ob sl by (simp add: read_with_def refl)
        qed
      qed
    qed
  qed (simp_all add: read_with_def refl)
qed

lemma apply_finalize_with_rel:
  assumes rp: "reflp R" and tp: "transp R"
    and asg: "\<And>strict t p v w. R w (snd (assign strict t p v w))" "\<And>w. R w (new_object w)"
    and newf: "\<And>b t w. R w (snd (new_func b t w))"
    and h: "\<And>rq w. R w (snd (h rq w))"
  shows "R w (snd (apply_finalize_with h fin bag w))"
proof -
  have refl: "\<And>w. R w w" using rp by (rule reflpD)
  have trans: "\<And>w w' w''. R w w' \<Longrightarrow> R w' w'' \<Longrightarrow> R w w''" using tp by (rule transpD)
  show ?thesis
  proof (cases fin)
    case (Into fn)
    have "R w (snd (new_func fn bag w))" by (rule newf)
    then show ?thesis using Into by (simp add: apply_finalize_with_def new_func_eq)
  next
    case (Build cb)
    obtain r w' where x: "exec h bag cb w = (r, w')" by (cases "exec h bag cb w")
    have "R w (snd (exec h bag cb w))" by (rule exec_rel [of R, OF rp tp asg h])
    then have 1: "R w w'" using x by simp
    have 2: "\<And>b. R w (snd (new_func b bag w'))" by (rule trans [OF 1 newf])
    show ?thesis using Build x 1 2 by (cases r) (simp_all add: apply_finalize_with_def new_func_eq)
  qed
qed

lemma getInjected_with_rel:
  assumes rp: "reflp R" and tp: "transp R"
    and asg: "\<And>strict t p v w. R w (snd (assign strict t p v w))" "\<And>w. R w (new_object w)"
    and newf: "\<And>b t w. R w (snd (new_func b t w))"
    and gi: "\<And>w. R w (snd (Storage_getInjections env ct owner w))"
    and logf: "\<And>c owner w. R w (log (FinalizeRun c owner) w)"
    and setj: "\<And>m w. R w (w\<lparr>injected := m\<rparr>)"
    and h: "\<And>rq w. R w (snd (h rq w))"
  shows "R w (snd (Storage_getInjected_with h env ct owner w))"
proof -
  have refl: "\<And>w. R w w" using rp by (rule reflpD)
  have trans: "\<And>w w' w''. R w w' \<Longrightarrow> R w' w'' \<Longrightarrow> R w w''" using tp by (rule transpD)
  show ?thesis
  proof (cases "\<not> isDestroying env owner \<and> \<not> isDestroyed env owner")
    case False
    then show ?thesis by (simp add: getInjected_with_dead refl)
  next
    case True
    then have alive: "\<not> isDestroying env owner" "\<not> isDestroyed env owner" by simp_all
    show ?thesis
    proof (cases "truthy (WeakMap_get (injected w) (cid ct) owner)")
      case True
      then show ?thesis using alive by (simp add: getInjected_with_cached refl)
    next
      case False
      obtain r wa where g: "Storage_getInjections env ct owner w = (r, wa)"
        by (cases "Storage_getInjections env ct owner w")
      have "R w (snd (Storage_getInjections env ct owner w))" by (rule gi)
      then have fa: "R w wa" using g by simp
      show ?thesis
      proof (cases r)
        case (Inl e)
        then show ?thesis using alive False g fa by (simp add: getInjected_with_uncached)
      next
        case (Inr bag)
        let ?wl = "log (FinalizeRun (cid ct) owner) wa"
        have fl: "R w ?wl" by (rule trans [OF fa logf])
        obtain r2 w2 where af: "apply_finalize_with h (c_finalize ct) bag ?wl = (r2, w2)"
          by (cases "apply_finalize_with h (c_finalize ct) bag ?wl")
        have "R ?wl (snd (apply_finalize_with h (c_finalize ct) bag ?wl))"
          by (rule apply_finalize_with_rel [of R, OF rp tp asg newf h])
        then have "R ?wl w2" using af by simp
        then have f2: "R w w2" by (rule trans [OF fl])
        have f3: "\<And>m. R w (w2\<lparr>injected := m\<rparr>)" by (rule trans [OF f2 setj])
        show ?thesis using alive False g Inr af f2 f3
          by (simp add: getInjected_with_uncached split: sum.splits)
      qed
    qed
  qed
qed

lemma makeConstructor_with_rel:
  assumes rp: "reflp R" and tp: "transp R"
    and gj: "\<And>owner w. R w (snd (Storage_getInjected_with h env ct owner w))"
    and iv: "\<And>f args w. R w (snd (invoke_with h f args w))"
  shows "R w (snd (makeConstructor_with h env ct new_target this args w))"
proof -
  have refl: "\<And>w. R w w" using rp by (rule reflpD)
  have trans: "\<And>w w' w''. R w w' \<Longrightarrow> R w' w'' \<Longrightarrow> R w w''" using tp by (rule transpD)
  show ?thesis
  proof -
    have both: "\<And>owner. R w (snd (case Storage_getInjected_with h env ct owner w of
               (Inl e, w1) \<Rightarrow> (Inl e, w1)
             | (Inr f, w1) \<Rightarrow> invoke_with h f args w1))"
    proof -
      fix owner
      obtain r w1 where g: "Storage_getInjected_with h env ct owner w = (r, w1)"
        by (cases "Storage_getInjected_with h env ct owner w")
      have "R w (snd (Storage_getInjected_with h env ct owner w))" by (rule gj)
      then have 1: "R w w1" using g by simp
      have 2: "\<And>f. R w (snd (invoke_with h f args w1))" by (rule trans [OF 1 iv])
      show "R w (snd (case Storage_getInjected_with h env ct owner w of
               (Inl e, w1) \<Rightarrow> (Inl e, w1)
             | (Inr f, w1) \<Rightarrow> invoke_with h f args w1))"
        using g 1 2 by (cases r) simp_all
    qed
    have c: "R w (snd (call_checked_with h env ct this args w))"
      using both by (simp add: call_checked_with_def assert_def refl split: sum.splits)
    have u: "R w (snd (call_unchecked_with h env ct this args w))"
      using both by (simp add: call_unchecked_with_def refl split: sum.splits)
    show ?thesis using c u gj by (simp add: makeConstructor_with_def)
  qed
qed

lemma perform_rel:
  assumes rp: "reflp R"
    and rd: "\<And>h t p w. (\<And>rq w. R w (snd (h rq w))) \<Longrightarrow> R w (snd (read_with env h t p w))"
    and mk: "\<And>h ct nt this args w. (\<And>rq w. R w (snd (h rq w))) \<Longrightarrow>
               R w (snd (makeConstructor_with h env ct nt this args w))"
    and iv: "\<And>h f args w. (\<And>rq w. R w (snd (h rq w))) \<Longrightarrow> R w (snd (invoke_with h f args w))"
  shows "R w (snd (perform env n rq w))"
proof -
  have refl: "\<And>w. R w w" using rp by (rule reflpD)
  show ?thesis
  proof (induction n arbitrary: rq w)
    case 0
    show ?case by (simp add: refl)
  next
    case (Suc n)
    show ?case
    proof (cases rq)
      case (GetProp t p)
      have "R w (snd (read_with env (perform env n) t p w))" by (rule rd) (rule Suc.IH)
      then show ?thesis using GetProp by simp
    next
      case (Construct c args)
      have "\<And>ct. R w (snd (makeConstructor_with (perform env n) env ct True Undefined args w))"
        by (rule mk) (rule Suc.IH)
      then show ?thesis using Construct by (simp add: refl split: option.splits)
    next
      case (CallCtor c this args)
      have "\<And>ct. R w (snd (makeConstructor_with (perform env n) env ct False this args w))"
        by (rule mk) (rule Suc.IH)
      then show ?thesis using CallCtor by (simp add: refl split: option.splits)
    next
      case (CallFun f args)
      have "R w (snd (invoke_with (perform env n) f args w))" by (rule iv) (rule Suc.IH)
      then show ?thesis using CallFun by simp
    qed
  qed
qed

lemma host_rel:
  assumes rp: "reflp R" and tp: "transp R"
    and asg: "\<And>strict t p v w. R w (snd (assign strict t p v w))" "\<And>w. R w (new_object w)"
    and pf: "\<And>n rq w. R w (snd (perform env n rq w))"
    and gj: "\<And>ct owner w. R w (snd (Storage_getInjected_with (perform env (stack env)) env ct owner w))"
    and iv: "\<And>f args w. R w (snd (invoke_with (perform env (stack env)) f args w))"
  shows "R w (snd (Storage_getInjected env ct owner w))"
    and "R w (snd (invoke env f args w))"
    and "R w (snd (ctor_new env ct args w))"
    and "R w (snd (ctor_call env ct this args w))"
    and "R w (snd (createHelper env owner ct a w))"
    and "R w (snd (getValue env st w))"
    and "R w (snd (exec (perform env n) t c w))"
proof -
  have refl: "\<And>w. R w w" using rp by (rule reflpD)
  show g: "\<And>ct owner w. R w (snd (Storage_getInjected env ct owner w))"
    unfolding Storage_getInjected_def by (rule gj)
  show i: "\<And>f args w. R w (snd (invoke env f args w))"
    unfolding invoke_def by (rule iv)
  show n: "\<And>ct args w. R w (snd (ctor_new env ct args w))"
    by (simp add: ctor_new_eq g)
  show "R w (snd (ctor_call env ct this args w))"
    unfolding ctor_call_def makeConstructor_def
    by (rule makeConstructor_with_rel [of R, OF rp tp gj iv])
  show "R w (snd (createHelper env owner ct a w))"
  proof (cases "isInjectable w ct")
    case False
    then show ?thesis by (simp add: createHelper_def assert_def refl)
  next
    case True
    obtain r w1 where c: "ctor_new env ct [owner] w = (r, w1)" by (cases "ctor_new env ct [owner] w")
    have "R w (snd (ctor_new env ct [owner] w))" by (rule n)
    then have "R w w1" using c by simp
    then show ?thesis using True c by (cases r) (simp_all add: createHelper_def assert_def)
  qed
  show "R w (snd (getValue env st w))" by (simp add: getValue_def i)
  show "R w (snd (exec (perform env n) t c w))"
    by (rule exec_rel [of R, OF rp tp asg pf])
qed

section \<open>The invariant of the weak maps\<close>

lemma wf_empty_world: "wf_world empty_world"
  by (simp add: wf_world_def empty_world_def)

lemma wf_alloc_object:
  assumes "wf_world w"
  shows "wf_world (w\<lparr>nxt := Suc (nxt w), objects := (objects w)(nxt w \<mapsto> ob)\<rparr>)"
  unfolding wf_world_def
proof (intro conjI allI impI)
  fix c ow b
  assume "injections (w\<lparr>nxt := Suc (nxt w), objects := (objects w)(nxt w \<mapsto> ob)\<rparr>) (c, ow) = Some b"
  then have i: "injections w (c, ow) = Some b" by simp
  with assms have k: "is_weak_key ow" and
    "\<exists>a ob'. b = Obj a \<and> a < nxt w \<and> objects w a = Some ob' \<and> frozen ob'"
    unfolding wf_world_def by blast+
  then obtain a ob' where "b = Obj a" "a < nxt w" "objects w a = Some ob'" "frozen ob'" by blast
  then have "b = Obj a \<and> a < Suc (nxt w) \<and> ((objects w)(nxt w \<mapsto> ob)) a = Some ob' \<and> frozen ob'"
    by simp
  then show "is_weak_key ow"
    and "\<exists>a oba. b = Obj a \<and> a < nxt (w\<lparr>nxt := Suc (nxt w), objects := (objects w)(nxt w \<mapsto> ob)\<rparr>) \<and>
           objects (w\<lparr>nxt := Suc (nxt w), objects := (objects w)(nxt w \<mapsto> ob)\<rparr>) a = Some oba \<and> frozen oba"
    using k by auto
next
  fix c ow f
  assume "injected (w\<lparr>nxt := Suc (nxt w), objects := (objects w)(nxt w \<mapsto> ob)\<rparr>) (c, ow) = Some f"
  then have "injected w (c, ow) = Some f" by simp
  with assms obtain a fr where "f = Fun a" "a < nxt w" "funcs w a = Some fr"
    "injections w (c, ow) = Some (fthis fr)" unfolding wf_world_def by blast
  then show "\<exists>a fr. f = Fun a \<and> a < nxt (w\<lparr>nxt := Suc (nxt w), objects := (objects w)(nxt w \<mapsto> ob)\<rparr>) \<and>
       funcs (w\<lparr>nxt := Suc (nxt w), objects := (objects w)(nxt w \<mapsto> ob)\<rparr>) a = Some fr \<and>
       injections (w\<lparr>nxt := Suc (nxt w), objects := (objects w)(nxt w \<mapsto> ob)\<rparr>) (c, ow) = Some (fthis fr)"
    by auto
qed

lemma wf_alloc_func:
  assumes "wf_world w"
  shows "wf_world (w\<lparr>nxt := Suc (nxt w), funcs := (funcs w)(nxt w \<mapsto> fr0)\<rparr>)"
  unfolding wf_world_def
proof (intro conjI allI impI)
  fix c ow b
  assume "injections (w\<lparr>nxt := Suc (nxt w), funcs := (funcs w)(nxt w \<mapsto> fr0)\<rparr>) (c, ow) = Some b"
  then have i: "injections w (c, ow) = Some b" by simp
  with assms have k: "is_weak_key ow" and
    "\<exists>a ob'. b = Obj a \<and> a < nxt w \<and> objects w a = Some ob' \<and> frozen ob'"
    unfolding wf_world_def by blast+
  then obtain a ob' where "b = Obj a" "a < nxt w" "objects w a = Some ob'" "frozen ob'" by blast
  then show "is_weak_key ow"
    and "\<exists>a oba. b = Obj a \<and> a < nxt (w\<lparr>nxt := Suc (nxt w), funcs := (funcs w)(nxt w \<mapsto> fr0)\<rparr>) \<and>
           objects (w\<lparr>nxt := Suc (nxt w), funcs := (funcs w)(nxt w \<mapsto> fr0)\<rparr>) a = Some oba \<and> frozen oba"
    using k by auto
next
  fix c ow f
  assume "injected (w\<lparr>nxt := Suc (nxt w), funcs := (funcs w)(nxt w \<mapsto> fr0)\<rparr>) (c, ow) = Some f"
  then have "injected w (c, ow) = Some f" by simp
  with assms obtain a fr where "f = Fun a" "a < nxt w" "funcs w a = Some fr"
    "injections w (c, ow) = Some (fthis fr)" unfolding wf_world_def by blast
  then have "f = Fun a \<and> a < Suc (nxt w) \<and> ((funcs w)(nxt w \<mapsto> fr0)) a = Some fr \<and>
      injections w (c, ow) = Some (fthis fr)" by simp
  then show "\<exists>a fr. f = Fun a \<and> a < nxt (w\<lparr>nxt := Suc (nxt w), funcs := (funcs w)(nxt w \<mapsto> fr0)\<rparr>) \<and>
       funcs (w\<lparr>nxt := Suc (nxt w), funcs := (funcs w)(nxt w \<mapsto> fr0)\<rparr>) a = Some fr \<and>
       injections (w\<lparr>nxt := Suc (nxt w), funcs := (funcs w)(nxt w \<mapsto> fr0)\<rparr>) (c, ow) = Some (fthis fr)"
    by auto
qed

text \<open>Entering a frozen, allocated object into the injections map, for a key that holds
  nothing truthy.\<close>

lemma wf_cache_injections:
  assumes wf_world: "wf_world w" and key: "is_weak_key ow" and a: "a < nxt w" "objects w a = Some ob" "frozen ob"
    and un: "\<not> truthy (WeakMap_get (injections w) c ow)"
  shows "wf_world (w\<lparr>injections := (injections w)((c, ow) \<mapsto> Obj a)\<rparr>)"
proof -
  have none: "injections w (c, ow) = None"
  proof (cases "injections w (c, ow)")
    case (Some b)
    with wf_world obtain a' where "b = Obj a'" unfolding wf_world_def by blast
    then have "truthy (WeakMap_get (injections w) c ow)" using Some key by (simp add: WeakMap_get_def)
    with un show ?thesis by simp
  qed simp
  have noinj: "injected w (c, ow) = None"
  proof (cases "injected w (c, ow)")
    case (Some f)
    with wf_world obtain fr :: func where "injections w (c, ow) = Some (fthis fr)" unfolding wf_world_def by blast
    with none show ?thesis by simp
  qed simp
  show ?thesis
    unfolding wf_world_def
  proof (intro conjI allI impI)
    fix c' ow' b
    assume h: "injections (w\<lparr>injections := (injections w)((c, ow) \<mapsto> Obj a)\<rparr>) (c', ow') = Some b"
    show "is_weak_key ow'"
    proof (cases "(c', ow') = (c, ow)")
      case True then show ?thesis using key by simp
    next
      case False
      then have "injections w (c', ow') = Some b" using h by (simp split: if_splits)
      with wf_world show ?thesis unfolding wf_world_def by blast
    qed
    show "\<exists>a' ob'. b = Obj a' \<and> a' < nxt (w\<lparr>injections := (injections w)((c, ow) \<mapsto> Obj a)\<rparr>) \<and>
        objects (w\<lparr>injections := (injections w)((c, ow) \<mapsto> Obj a)\<rparr>) a' = Some ob' \<and> frozen ob'"
    proof (cases "(c', ow') = (c, ow)")
      case True
      then have "b = Obj a" using h by simp
      then show ?thesis using a by simp
    next
      case False
      then have "injections w (c', ow') = Some b" using h by (simp split: if_splits)
      with wf_world have "\<exists>a' ob'. b = Obj a' \<and> a' < nxt w \<and> objects w a' = Some ob' \<and> frozen ob'"
        unfolding wf_world_def by blast
      then show ?thesis by simp
    qed
  next
    fix c' ow' f
    assume h: "injected (w\<lparr>injections := (injections w)((c, ow) \<mapsto> Obj a)\<rparr>) (c', ow') = Some f"
    then have i: "injected w (c', ow') = Some f" by simp
    then have ne: "(c', ow') \<noteq> (c, ow)" using noinj by auto
    from wf_world i obtain a' fr where "f = Fun a'" "a' < nxt w" "funcs w a' = Some fr"
      "injections w (c', ow') = Some (fthis fr)" unfolding wf_world_def by blast
    then have "f = Fun a' \<and> a' < nxt w \<and> funcs w a' = Some fr \<and>
      ((injections w)((c, ow) \<mapsto> Obj a)) (c', ow') = Some (fthis fr)" using ne by auto
    then show "\<exists>a' fr. f = Fun a' \<and> a' < nxt (w\<lparr>injections := (injections w)((c, ow) \<mapsto> Obj a)\<rparr>) \<and>
         funcs (w\<lparr>injections := (injections w)((c, ow) \<mapsto> Obj a)\<rparr>) a' = Some fr \<and>
         injections (w\<lparr>injections := (injections w)((c, ow) \<mapsto> Obj a)\<rparr>) (c', ow') = Some (fthis fr)"
      by auto
  qed
qed

lemma wf_cache_injected:
  assumes wf_world: "wf_world w" and a: "a < nxt w" "funcs w a = Some fr" "injections w (c, ow) = Some (fthis fr)"
  shows "wf_world (w\<lparr>injected := (injected w)((c, ow) \<mapsto> Fun a)\<rparr>)"
  unfolding wf_world_def
proof (intro conjI allI impI)
  fix c' ow' b
  assume "injections (w\<lparr>injected := (injected w)((c, ow) \<mapsto> Fun a)\<rparr>) (c', ow') = Some b"
  then have "injections w (c', ow') = Some b" by simp
  with wf_world have "is_weak_key ow'" and "\<exists>a' ob'. b = Obj a' \<and> a' < nxt w \<and> objects w a' = Some ob' \<and> frozen ob'"
    unfolding wf_world_def by blast+
  then show "is_weak_key ow'" and
    "\<exists>a' ob'. b = Obj a' \<and> a' < nxt (w\<lparr>injected := (injected w)((c, ow) \<mapsto> Fun a)\<rparr>) \<and>
        objects (w\<lparr>injected := (injected w)((c, ow) \<mapsto> Fun a)\<rparr>) a' = Some ob' \<and> frozen ob'"
    by simp_all
next
  fix c' ow' f
  assume h: "injected (w\<lparr>injected := (injected w)((c, ow) \<mapsto> Fun a)\<rparr>) (c', ow') = Some f"
  have "\<exists>a' fr'. f = Fun a' \<and> a' < nxt w \<and> funcs w a' = Some fr' \<and>
      injections w (c', ow') = Some (fthis fr')"
  proof (cases "(c', ow') = (c, ow)")
    case True
    then have "f = Fun a" using h by simp
    then show ?thesis using a True by auto
  next
    case False
    then have "injected w (c', ow') = Some f" using h by (simp split: if_splits)
    with wf_world show ?thesis unfolding wf_world_def by blast
  qed
  then show "\<exists>a' fr'. f = Fun a' \<and> a' < nxt (w\<lparr>injected := (injected w)((c, ow) \<mapsto> Fun a)\<rparr>) \<and>
       funcs (w\<lparr>injected := (injected w)((c, ow) \<mapsto> Fun a)\<rparr>) a' = Some fr' \<and>
       injections (w\<lparr>injected := (injected w)((c, ow) \<mapsto> Fun a)\<rparr>) (c', ow') = Some (fthis fr')"
    by simp
qed

lemma wf_cong:
  assumes "wf_world w" "nxt w \<le> nxt w'" "objects w' = objects w" "funcs w' = funcs w"
    "injections w' = injections w" "injected w' = injected w"
  shows "wf_world w'"
  unfolding wf_world_def
proof (intro conjI allI impI)
  fix c ow b
  assume "injections w' (c, ow) = Some b"
  then have "injections w (c, ow) = Some b" using assms by simp
  with assms(1) have "is_weak_key ow" and
    "\<exists>a ob. b = Obj a \<and> a < nxt w \<and> objects w a = Some ob \<and> frozen ob"
    unfolding wf_world_def by blast+
  then show "is_weak_key ow" and "\<exists>a ob. b = Obj a \<and> a < nxt w' \<and> objects w' a = Some ob \<and> frozen ob"
    using assms by (auto intro: less_le_trans)
next
  fix c ow f
  assume "injected w' (c, ow) = Some f"
  then have "injected w (c, ow) = Some f" using assms by simp
  with assms(1) have "\<exists>a fr. f = Fun a \<and> a < nxt w \<and> funcs w a = Some fr \<and>
      injections w (c, ow) = Some (fthis fr)" unfolding wf_world_def by blast
  then show "\<exists>a fr. f = Fun a \<and> a < nxt w' \<and> funcs w' a = Some fr \<and>
      injections w' (c, ow) = Some (fthis fr)"
    using assms by (auto intro: less_le_trans)
qed

lemma Storage_getInjections_wf:
  assumes wf_world: "wf_world w"
  shows "wf_world (snd (Storage_getInjections env ct owner w))"
proof (cases "\<not> isDestroying env owner \<and> \<not> isDestroyed env owner")
  case False
  then show ?thesis using wf_world by (auto simp: Storage_getInjections_def assert_def)
next
  case True
  then have alive: "\<not> isDestroying env owner" "\<not> isDestroyed env owner" by simp_all
  show ?thesis
  proof (cases "truthy (WeakMap_get (injections w) (cid ct) owner)")
    case True
    then show ?thesis using wf_world alive by (simp add: getInjections_cached)
  next
    case False
    let ?w0 = "log (RulesRun (cid ct) owner) w"
    obtain r w' where B: "Builder_getInjections (c_polaris ct) (c_properties ct) owner ?w0 = (r, w')"
      by (cases "Builder_getInjections (c_polaris ct) (c_properties ct) owner ?w0")
    from Builder_getInjections_shape [of "c_polaris ct" "c_properties ct" owner ?w0] B
    obtain ob' where w': "w' = ?w0\<lparr>nxt := Suc (nxt ?w0), objects := (objects ?w0)(nxt ?w0 \<mapsto> ob')\<rparr>"
      and r: "(\<exists>e. r = Inl e) \<or> (r = Inr (Obj (nxt ?w0)) \<and> frozen ob')" by auto
    have wf0: "wf_world ?w0" using wf_world by (simp add: wf_log)
    have wf': "wf_world w'" unfolding w' by (rule wf_alloc_object [OF wf0])
    have eq: "Storage_getInjections env ct owner w =
         (case r of Inl e \<Rightarrow> (Inl e, w') | Inr b \<Rightarrow>
             (case WeakMap_set (injections w') (cid ct) owner b of
                Inl e \<Rightarrow> (Inl e, w')
              | Inr m \<Rightarrow> (Inr b, w'\<lparr>injections := m\<rparr>)))"
      using False alive B by (simp add: getInjections_uncached split: sum.splits)
    from r show ?thesis
    proof
      assume "\<exists>e. r = Inl e"
      then show ?thesis using eq wf' by auto
    next
      assume ro: "r = Inr (Obj (nxt ?w0)) \<and> frozen ob'"
      show ?thesis
      proof (cases "WeakMap_set (injections w') (cid ct) owner (Obj (nxt ?w0))")
        case (Inl e)
        then show ?thesis using eq ro wf' by simp
      next
        case (Inr m)
        have m: "m = (injections w')((cid ct, owner) \<mapsto> Obj (nxt ?w0))" by (rule WeakMap_set_eq [OF Inr])
        have key: "is_weak_key owner" by (rule WeakMap_set_key [OF Inr])
        have un: "\<not> truthy (WeakMap_get (injections w') (cid ct) owner)"
          using False by (simp add: w' log_def)
        have "wf_world (w'\<lparr>injections := (injections w')((cid ct, owner) \<mapsto> Obj (nxt ?w0))\<rparr>)"
          by (rule wf_cache_injections [OF wf' key _ _ _ un, where ob = ob'])
             (use ro in \<open>simp_all add: w'\<close>)
        then show ?thesis using eq ro Inr m by simp
      qed
    qed
  qed
qed

text \<open>Changing properties of objects, without unfreezing any, keeps the invariant.\<close>

lemma wf_objects:
  assumes "wf_world w" "nxt w' = nxt w" "funcs w' = funcs w" "injections w' = injections w"
    "injected w' = injected w"
    "\<forall>a ob. objects w a = Some ob \<longrightarrow> (\<exists>ob'. objects w' a = Some ob' \<and> frozen ob' = frozen ob)"
  shows "wf_world w'"
  unfolding wf_world_def
proof (intro conjI allI impI)
  fix c ow b
  assume "injections w' (c, ow) = Some b"
  then have "injections w (c, ow) = Some b" using assms by simp
  with assms(1) have k: "is_weak_key ow" and
    "\<exists>a ob. b = Obj a \<and> a < nxt w \<and> objects w a = Some ob \<and> frozen ob"
    unfolding wf_world_def by blast+
  then obtain a ob where a: "b = Obj a" "a < nxt w" "objects w a = Some ob" "frozen ob" by blast
  with assms(6) obtain ob' where "objects w' a = Some ob'" "frozen ob' = frozen ob" by blast
  then show "is_weak_key ow" and "\<exists>a ob. b = Obj a \<and> a < nxt w' \<and> objects w' a = Some ob \<and> frozen ob"
    using k a assms(2) by auto
next
  fix c ow f
  assume "injected w' (c, ow) = Some f"
  then have "injected w (c, ow) = Some f" using assms by simp
  with assms(1) have "\<exists>a fr. f = Fun a \<and> a < nxt w \<and> funcs w a = Some fr \<and>
      injections w (c, ow) = Some (fthis fr)" unfolding wf_world_def by blast
  then show "\<exists>a fr. f = Fun a \<and> a < nxt w' \<and> funcs w' a = Some fr \<and>
      injections w' (c, ow) = Some (fthis fr)"
    using assms by auto
qed

lemma put_slot_wf: "wf_world w \<Longrightarrow> wf_world (put_slot a p s w)"
  by (erule wf_objects) (auto simp: put_slot_def split: option.splits)

lemma assign_wf: "wf_world w \<Longrightarrow> wf_world (snd (assign strict t p v w))"
  by (erule wf_objects)
     (auto simp: assign_def reject_def put_slot_def split: val.splits option.splits slot.splits)

lemma new_func_wf: "wf_world w \<Longrightarrow> wf_world (snd (new_func b t w))"
  unfolding new_func_eq snd_conv by (rule wf_alloc_func)

section \<open>Builders, constructors and markers\<close>

lemma call_frame_refl: "call_frame w w"
  by (simp add: call_frame_def)

lemma call_frame_trans: "call_frame w w' \<Longrightarrow> call_frame w' w'' \<Longrightarrow> call_frame w w''"
  by (auto simp: call_frame_def)

lemma call_frame_reflp: "reflp call_frame"
  by (rule reflpI) (rule call_frame_refl)

lemma call_frame_transp: "transp call_frame"
  by (rule transpI) (rule call_frame_trans)

lemma call_frame_log: "call_frame w (log e w)"
  by (simp add: call_frame_def log_def)

lemma call_frame_put_slot: "call_frame w (put_slot a p s w)"
  by (simp add: call_frame_def put_slot_def split: option.splits)

lemma call_frame_assign: "call_frame w (snd (assign strict t p v w))"
  by (auto simp: call_frame_def assign_def reject_def put_slot_def
      split: val.splits option.splits slot.splits)

lemma call_frame_new_object: "call_frame w (new_object w)"
  by (simp add: call_frame_def new_object_def)

lemmas call_frame_user = call_frame_assign call_frame_new_object

lemma call_frame_new_func: "call_frame w (snd (new_func b t w))"
  by (simp add: call_frame_def new_func_def)

lemma call_frame_injected: "call_frame w (w\<lparr>injected := m\<rparr>)"
  by (simp add: call_frame_def)

lemma Builder_getInjections_call_frame:
  "call_frame w (snd (Builder_getInjections pol rs owner w))"
  using Builder_getInjections_shape [of pol rs owner w] by (auto simp: call_frame_def)

lemma Storage_getInjections_call_frame:
  "call_frame w (snd (Storage_getInjections env ct owner w))"
proof (cases "\<not> isDestroying env owner \<and> \<not> isDestroyed env owner")
  case False
  then show ?thesis by (simp add: getInjections_dead call_frame_refl)
next
  case True
  then have alive: "\<not> isDestroying env owner" "\<not> isDestroyed env owner" by simp_all
  show ?thesis
  proof (cases "truthy (WeakMap_get (injections w) (cid ct) owner)")
    case True
    then show ?thesis using alive by (simp add: getInjections_cached call_frame_refl)
  next
    case False
    let ?w0 = "log (RulesRun (cid ct) owner) w"
    obtain r w' where B: "Builder_getInjections (c_polaris ct) (c_properties ct) owner ?w0 = (r, w')"
      by (cases "Builder_getInjections (c_polaris ct) (c_properties ct) owner ?w0")
    have "call_frame ?w0 w'"
      using Builder_getInjections_call_frame [of ?w0 "c_polaris ct" "c_properties ct" owner] B by simp
    then have f: "call_frame w w'" by (rule call_frame_trans [OF call_frame_log])
    then have f2: "\<And>m. call_frame w (w'\<lparr>injections := m\<rparr>)" by (simp add: call_frame_def)
    show ?thesis using False alive B f f2
      by (simp add: getInjections_uncached split: sum.splits)
  qed
qed

lemma read_with_call_frame:
  "(\<And>rq w. call_frame w (snd (h rq w))) \<Longrightarrow> call_frame w (snd (read_with env h t p w))"
  by (rule read_with_rel [of call_frame, OF call_frame_reflp call_frame_transp call_frame_user
        call_frame_log call_frame_log call_frame_put_slot])

lemma getInjected_with_call_frame:
  "(\<And>rq w. call_frame w (snd (h rq w))) \<Longrightarrow>
   call_frame w (snd (Storage_getInjected_with h env ct owner w))"
  by (rule getInjected_with_rel [of call_frame, OF call_frame_reflp call_frame_transp
        call_frame_user call_frame_new_func Storage_getInjections_call_frame call_frame_log
        call_frame_injected])

lemma invoke_with_call_frame:
  "(\<And>rq w. call_frame w (snd (h rq w))) \<Longrightarrow> call_frame w (snd (invoke_with h f args w))"
  by (rule invoke_with_rel [of call_frame, OF call_frame_reflp call_frame_transp
        call_frame_user call_frame_log])

lemma makeConstructor_with_call_frame:
  assumes h: "\<And>rq w. call_frame w (snd (h rq w))"
  shows "call_frame w (snd (makeConstructor_with h env ct nt this args w))"
  by (rule makeConstructor_with_rel [of call_frame, OF call_frame_reflp call_frame_transp])
     (rule getInjected_with_call_frame [OF h], rule invoke_with_call_frame [OF h])

lemma perform_call_frame: "call_frame w (snd (perform env n rq w))"
  by (rule perform_rel [of call_frame, OF call_frame_reflp])
     (erule read_with_call_frame, erule makeConstructor_with_call_frame,
      erule invoke_with_call_frame)

lemmas host_call_frame =
  host_rel [of call_frame, OF call_frame_reflp call_frame_transp call_frame_user
    perform_call_frame getInjected_with_call_frame [OF perform_call_frame]
    invoke_with_call_frame [OF perform_call_frame]]

section \<open>The weak maps across calls\<close>

lemma cache_frameI:
  assumes "trace w' = trace w @ es"
    and "\<And>c ow. RulesRun c ow \<notin> set es \<Longrightarrow> injections w' (c, ow) = injections w (c, ow)"
    and "\<And>c ow. FinalizeRun c ow \<notin> set es \<Longrightarrow> injected w' (c, ow) = injected w (c, ow)"
    and "wf_world w \<Longrightarrow> wf_world w'"
    and "\<And>c ow b. wf_world w \<Longrightarrow> injections w (c, ow) = Some b \<Longrightarrow> RulesRun c ow \<notin> set es"
    and "\<And>c ow f. wf_world w \<Longrightarrow> injected w (c, ow) = Some f \<Longrightarrow> FinalizeRun c ow \<notin> set es"
  shows "cache_frame w w'"
  unfolding cache_frame_def
  apply (rule exI [of _ es])
  apply (intro conjI allI impI)
       apply (rule assms(1))
      apply (rule ccontr, drule assms(2), simp)
     apply (rule ccontr, drule assms(3), simp)
    apply (erule assms(4))
   apply (erule (1) assms(5))
  apply (erule (1) assms(6))
  done

lemma cache_frameD:
  assumes "cache_frame w w'"
  shows "\<exists>es. trace w' = trace w @ es \<and>
    (\<forall>c ow. RulesRun c ow \<notin> set es \<longrightarrow> injections w' (c, ow) = injections w (c, ow)) \<and>
    (\<forall>c ow. FinalizeRun c ow \<notin> set es \<longrightarrow> injected w' (c, ow) = injected w (c, ow)) \<and>
    (wf_world w \<longrightarrow> wf_world w') \<and>
    (\<forall>c ow b. wf_world w \<longrightarrow> injections w (c, ow) = Some b \<longrightarrow> RulesRun c ow \<notin> set es) \<and>
    (\<forall>c ow f. wf_world w \<longrightarrow> injected w (c, ow) = Some f \<longrightarrow> FinalizeRun c ow \<notin> set es)"
proof -
  from assms obtain es where es: "trace w' = trace w @ es"
    and 1: "\<forall>c ow. injections w' (c, ow) \<noteq> injections w (c, ow) \<longrightarrow> RulesRun c ow \<in> set es"
    and 2: "\<forall>c ow. injected w' (c, ow) \<noteq> injected w (c, ow) \<longrightarrow> FinalizeRun c ow \<in> set es"
    and 3: "wf_world w \<longrightarrow> wf_world w' \<and>
           (\<forall>c ow b. injections w (c, ow) = Some b \<longrightarrow> RulesRun c ow \<notin> set es) \<and>
           (\<forall>c ow f. injected w (c, ow) = Some f \<longrightarrow> FinalizeRun c ow \<notin> set es)"
    unfolding cache_frame_def by blast
  have "trace w' = trace w @ es \<and>
    (\<forall>c ow. RulesRun c ow \<notin> set es \<longrightarrow> injections w' (c, ow) = injections w (c, ow)) \<and>
    (\<forall>c ow. FinalizeRun c ow \<notin> set es \<longrightarrow> injected w' (c, ow) = injected w (c, ow)) \<and>
    (wf_world w \<longrightarrow> wf_world w') \<and>
    (\<forall>c ow b. wf_world w \<longrightarrow> injections w (c, ow) = Some b \<longrightarrow> RulesRun c ow \<notin> set es) \<and>
    (\<forall>c ow f. wf_world w \<longrightarrow> injected w (c, ow) = Some f \<longrightarrow> FinalizeRun c ow \<notin> set es)"
    using es 1 2 3 by blast
  then show ?thesis ..
qed

lemma cache_frame_wf: "cache_frame w w' \<Longrightarrow> wf_world w \<Longrightarrow> wf_world w'"
  by (drule cache_frameD) blast

lemma cache_frame_same:
  assumes "trace w' = trace w" "injections w' = injections w" "injected w' = injected w"
    "wf_world w \<Longrightarrow> wf_world w'"
  shows "cache_frame w w'"
  by (rule cache_frameI [of _ _ "[]"]) (use assms in simp_all)

lemma cache_frame_refl: "cache_frame w w"
  by (rule cache_frame_same) simp_all

lemma cache_frame_trans:
  assumes 1: "cache_frame w w'" and 2: "cache_frame w' w''"
  shows "cache_frame w w''"
proof -
  from cache_frameD [OF 1] obtain es1 where t1: "trace w' = trace w @ es1"
    and i1: "\<forall>c ow. RulesRun c ow \<notin> set es1 \<longrightarrow> injections w' (c, ow) = injections w (c, ow)"
    and j1: "\<forall>c ow. FinalizeRun c ow \<notin> set es1 \<longrightarrow> injected w' (c, ow) = injected w (c, ow)"
    and w1: "wf_world w \<longrightarrow> wf_world w'"
    and r1: "\<forall>c ow b. wf_world w \<longrightarrow> injections w (c, ow) = Some b \<longrightarrow> RulesRun c ow \<notin> set es1"
    and f1: "\<forall>c ow f. wf_world w \<longrightarrow> injected w (c, ow) = Some f \<longrightarrow> FinalizeRun c ow \<notin> set es1"
    by blast
  from cache_frameD [OF 2] obtain es2 where t2: "trace w'' = trace w' @ es2"
    and i2: "\<forall>c ow. RulesRun c ow \<notin> set es2 \<longrightarrow> injections w'' (c, ow) = injections w' (c, ow)"
    and j2: "\<forall>c ow. FinalizeRun c ow \<notin> set es2 \<longrightarrow> injected w'' (c, ow) = injected w' (c, ow)"
    and w2: "wf_world w' \<longrightarrow> wf_world w''"
    and r2: "\<forall>c ow b. wf_world w' \<longrightarrow> injections w' (c, ow) = Some b \<longrightarrow> RulesRun c ow \<notin> set es2"
    and f2: "\<forall>c ow f. wf_world w' \<longrightarrow> injected w' (c, ow) = Some f \<longrightarrow> FinalizeRun c ow \<notin> set es2"
    by blast
  show ?thesis
  proof (rule cache_frameI [of _ _ "es1 @ es2"])
    show "trace w'' = trace w @ es1 @ es2" using t1 t2 by simp
  next
    fix c ow
    assume "RulesRun c ow \<notin> set (es1 @ es2)"
    then show "injections w'' (c, ow) = injections w (c, ow)" using i1 i2 by simp
  next
    fix c ow
    assume "FinalizeRun c ow \<notin> set (es1 @ es2)"
    then show "injected w'' (c, ow) = injected w (c, ow)" using j1 j2 by simp
  next
    assume "wf_world w"
    then show "wf_world w''" using w1 w2 by simp
  next
    fix c ow b
    assume wf: "wf_world w" and b: "injections w (c, ow) = Some b"
    have n1: "RulesRun c ow \<notin> set es1" using r1 wf b by blast
    then have "injections w' (c, ow) = Some b" using i1 b by simp
    then have "RulesRun c ow \<notin> set es2" using r2 w1 wf by blast
    with n1 show "RulesRun c ow \<notin> set (es1 @ es2)" by simp
  next
    fix c ow f
    assume wf: "wf_world w" and f: "injected w (c, ow) = Some f"
    have n1: "FinalizeRun c ow \<notin> set es1" using f1 wf f by blast
    then have "injected w' (c, ow) = Some f" using j1 f by simp
    then have "FinalizeRun c ow \<notin> set es2" using f2 w1 wf by blast
    with n1 show "FinalizeRun c ow \<notin> set (es1 @ es2)" by simp
  qed
qed

lemma cache_frame_reflp: "reflp cache_frame"
  by (rule reflpI) (rule cache_frame_refl)

lemma cache_frame_transp: "transp cache_frame"
  by (rule transpI) (rule cache_frame_trans)

lemma cache_frame_log: "\<not> is_run e \<Longrightarrow> cache_frame w (log e w)"
  by (rule cache_frameI [of _ _ "[e]"]) (auto simp: log_def wf_log [unfolded log_def])

lemma cache_frame_log_lookup: "cache_frame w (log (LookupCall owner tok) w)"
  by (rule cache_frame_log) simp

lemma cache_frame_log_callback: "cache_frame w (log (CallbackCall p owner) w)"
  by (rule cache_frame_log) simp

lemma cache_frame_log_invoke: "cache_frame w (log (Invoke a args) w)"
  by (rule cache_frame_log) simp

lemma cache_frame_put_slot: "cache_frame w (put_slot a p s w)"
  by (rule cache_frame_same) (simp_all add: put_slot_wf, simp_all add: put_slot_def split: option.splits)

lemma cache_frame_assign: "cache_frame w (snd (assign strict t p v w))"
  by (rule cache_frame_same)
     (simp_all add: assign_wf,
      auto simp: assign_def reject_def put_slot_def split: val.splits option.splits slot.splits)

lemma cache_frame_new_object: "cache_frame w (new_object w)"
  by (rule cache_frame_same) (simp_all add: new_object_def wf_alloc_object)

lemmas cache_frame_user = cache_frame_assign cache_frame_new_object

lemma cache_frame_new_func: "cache_frame w (snd (new_func b t w))"
  by (rule cache_frame_same) (simp_all add: new_func_wf, simp_all add: new_func_def)

text \<open>\<open>getInjections\<close> either leaves the state as it is, or runs rule evaluation for
  a pair that has no entry and touches the entry of that pair only.\<close>

lemma getInjections_effect:
  "snd (Storage_getInjections env ct owner w) = w \<or>
   (\<not> truthy (WeakMap_get (injections w) (cid ct) owner) \<and>
    trace (snd (Storage_getInjections env ct owner w)) = trace w @ [RulesRun (cid ct) owner] \<and>
    injected (snd (Storage_getInjections env ct owner w)) = injected w \<and>
    (\<forall>k. k \<noteq> (cid ct, owner) \<longrightarrow>
       injections (snd (Storage_getInjections env ct owner w)) k = injections w k))"
proof (cases "\<not> isDestroying env owner \<and> \<not> isDestroyed env owner")
  case False
  then show ?thesis by (simp add: getInjections_dead)
next
  case True
  then have alive: "\<not> isDestroying env owner" "\<not> isDestroyed env owner" by simp_all
  show ?thesis
  proof (cases "truthy (WeakMap_get (injections w) (cid ct) owner)")
    case True
    then show ?thesis using alive by (simp add: getInjections_cached)
  next
    case False
    let ?w0 = "log (RulesRun (cid ct) owner) w"
    obtain r w' where B: "Builder_getInjections (c_polaris ct) (c_properties ct) owner ?w0 = (r, w')"
      by (cases "Builder_getInjections (c_polaris ct) (c_properties ct) owner ?w0")
    from Builder_getInjections_shape [of "c_polaris ct" "c_properties ct" owner ?w0] B
    obtain ob' where w': "w' = ?w0\<lparr>nxt := Suc (nxt ?w0), objects := (objects ?w0)(nxt ?w0 \<mapsto> ob')\<rparr>"
      by auto
    have t: "trace w' = trace w @ [RulesRun (cid ct) owner]" "injected w' = injected w"
      "injections w' = injections w"
      by (simp_all add: w' log_def)
    have eq: "Storage_getInjections env ct owner w =
         (case r of Inl e \<Rightarrow> (Inl e, w') | Inr b \<Rightarrow>
             (case WeakMap_set (injections w') (cid ct) owner b of
                Inl e \<Rightarrow> (Inl e, w')
              | Inr m \<Rightarrow> (Inr b, w'\<lparr>injections := m\<rparr>)))"
      using False alive B by (simp add: getInjections_uncached split: sum.splits)
    have "trace (snd (Storage_getInjections env ct owner w)) = trace w @ [RulesRun (cid ct) owner] \<and>
      injected (snd (Storage_getInjections env ct owner w)) = injected w \<and>
      (\<forall>k. k \<noteq> (cid ct, owner) \<longrightarrow>
         injections (snd (Storage_getInjections env ct owner w)) k = injections w k)"
      unfolding eq using t by (auto simp: WeakMap_set_def split: sum.splits if_splits)
    then show ?thesis using False by blast
  qed
qed

text \<open>In a state that satisfies the invariant, an entry of either map is found by the
  method that looks for it.\<close>

lemma wf_injections_truthy:
  "wf_world w \<Longrightarrow> injections w (c, ow) = Some b \<Longrightarrow>
   WeakMap_get (injections w) c ow = b \<and> truthy b"
  unfolding wf_world_def by (fastforce simp: WeakMap_get_def)

lemma wf_injected_truthy:
  assumes wf: "wf_world w" and f: "injected w (c, ow) = Some f"
  shows "WeakMap_get (injected w) c ow = f \<and> truthy f"
proof -
  from wf f obtain a and fr :: func where a: "f = Fun a" "injections w (c, ow) = Some (fthis fr)"
    unfolding wf_world_def by blast
  with wf have "is_weak_key ow" unfolding wf_world_def by blast
  then show ?thesis using a f by (simp add: WeakMap_get_def)
qed

lemma Storage_getInjections_cache_frame:
  "cache_frame w (snd (Storage_getInjections env ct owner w))"
proof -
  let ?w1 = "snd (Storage_getInjections env ct owner w)"
  from getInjections_effect [of env ct owner w] show ?thesis
  proof
    assume "?w1 = w"
    then show ?thesis by (simp add: cache_frame_refl)
  next
    assume e: "\<not> truthy (WeakMap_get (injections w) (cid ct) owner) \<and>
      trace ?w1 = trace w @ [RulesRun (cid ct) owner] \<and> injected ?w1 = injected w \<and>
      (\<forall>k. k \<noteq> (cid ct, owner) \<longrightarrow> injections ?w1 k = injections w k)"
    show ?thesis
    proof (rule cache_frameI [of _ _ "[RulesRun (cid ct) owner]"])
      show "trace ?w1 = trace w @ [RulesRun (cid ct) owner]" using e by simp
    next
      fix c ow
      assume "RulesRun c ow \<notin> set [RulesRun (cid ct) owner]"
      then have "(c, ow) \<noteq> (cid ct, owner)" by auto
      then show "injections ?w1 (c, ow) = injections w (c, ow)" using e by blast
    next
      fix c ow
      show "injected ?w1 (c, ow) = injected w (c, ow)" using e by simp
    next
      assume "wf_world w"
      then show "wf_world ?w1" by (rule Storage_getInjections_wf)
    next
      fix c ow b
      assume wf: "wf_world w" and b: "injections w (c, ow) = Some b"
      have "(c, ow) \<noteq> (cid ct, owner)"
      proof
        assume "(c, ow) = (cid ct, owner)"
        then have "injections w (cid ct, owner) = Some b" using b by simp
        from wf_injections_truthy [OF wf this] e show False by simp
      qed
      then show "RulesRun c ow \<notin> set [RulesRun (cid ct) owner]" by auto
    next
      fix c ow f
      show "FinalizeRun c ow \<notin> set [RulesRun (cid ct) owner]" by simp
    qed
  qed
qed

lemma exec_cache_frame:
  "(\<And>rq w. cache_frame w (snd (h rq w))) \<Longrightarrow> cache_frame w (snd (exec h t c w))"
  by (rule exec_rel [of cache_frame, OF cache_frame_reflp cache_frame_transp cache_frame_user])

lemma read_with_cache_frame:
  "(\<And>rq w. cache_frame w (snd (h rq w))) \<Longrightarrow> cache_frame w (snd (read_with env h t p w))"
  by (rule read_with_rel [of cache_frame, OF cache_frame_reflp cache_frame_transp
        cache_frame_user cache_frame_log_lookup cache_frame_log_callback cache_frame_put_slot])

lemma invoke_with_cache_frame:
  "(\<And>rq w. cache_frame w (snd (h rq w))) \<Longrightarrow> cache_frame w (snd (invoke_with h f args w))"
  by (rule invoke_with_rel [of cache_frame, OF cache_frame_reflp cache_frame_transp
        cache_frame_user cache_frame_log_invoke])

lemma apply_finalize_with_cache_frame:
  "(\<And>rq w. cache_frame w (snd (h rq w))) \<Longrightarrow>
   cache_frame w (snd (apply_finalize_with h fin bag w))"
  by (rule apply_finalize_with_rel [of cache_frame, OF cache_frame_reflp cache_frame_transp
        cache_frame_user cache_frame_new_func])

lemma getInjected_with_cache_frame:
  assumes h: "\<And>rq w. cache_frame w (snd (h rq w))"
  shows "cache_frame w (snd (Storage_getInjected_with h env ct owner w))"
proof (cases "\<not> isDestroying env owner \<and> \<not> isDestroyed env owner")
  case False
  then show ?thesis by (simp add: getInjected_with_dead cache_frame_refl)
next
  case True
  then have alive: "\<not> isDestroying env owner" "\<not> isDestroyed env owner" by simp_all
  show ?thesis
  proof (cases "truthy (WeakMap_get (injected w) (cid ct) owner)")
    case True
    then show ?thesis using alive by (simp add: getInjected_with_cached cache_frame_refl)
  next
    case False
    note uncached = this
    obtain r wa where g: "Storage_getInjections env ct owner w = (r, wa)"
      by (cases "Storage_getInjections env ct owner w")
    have fa: "cache_frame w wa"
      using Storage_getInjections_cache_frame [of w env ct owner] g by simp
    show ?thesis
    proof (cases r)
      case (Inl e)
      then show ?thesis using alive uncached g fa by (simp add: getInjected_with_uncached)
    next
      case (Inr bag)
      note bag = this
      let ?wl = "log (FinalizeRun (cid ct) owner) wa"
      obtain r2 w2 where af: "apply_finalize_with h (c_finalize ct) bag ?wl = (r2, w2)"
        by (cases "apply_finalize_with h (c_finalize ct) bag ?wl")
      have "cache_frame ?wl (snd (apply_finalize_with h (c_finalize ct) bag ?wl))"
        by (rule apply_finalize_with_cache_frame [OF h])
      then have f2: "cache_frame ?wl w2" using af by simp
      from cache_frameD [OF fa] obtain es1 where t1: "trace wa = trace w @ es1"
        and i1: "\<forall>c ow. RulesRun c ow \<notin> set es1 \<longrightarrow> injections wa (c, ow) = injections w (c, ow)"
        and j1: "\<forall>c ow. FinalizeRun c ow \<notin> set es1 \<longrightarrow> injected wa (c, ow) = injected w (c, ow)"
        and w1: "wf_world w \<longrightarrow> wf_world wa"
        and r1: "\<forall>c ow b. wf_world w \<longrightarrow> injections w (c, ow) = Some b \<longrightarrow> RulesRun c ow \<notin> set es1"
        and f1: "\<forall>c ow f. wf_world w \<longrightarrow> injected w (c, ow) = Some f \<longrightarrow> FinalizeRun c ow \<notin> set es1"
        by blast
      from cache_frameD [OF f2] obtain es2 where t2: "trace w2 = trace ?wl @ es2"
        and i2: "\<forall>c ow. RulesRun c ow \<notin> set es2 \<longrightarrow> injections w2 (c, ow) = injections ?wl (c, ow)"
        and j2: "\<forall>c ow. FinalizeRun c ow \<notin> set es2 \<longrightarrow> injected w2 (c, ow) = injected ?wl (c, ow)"
        and w2: "wf_world ?wl \<longrightarrow> wf_world w2"
        and r2: "\<forall>c ow b. wf_world ?wl \<longrightarrow> injections ?wl (c, ow) = Some b \<longrightarrow> RulesRun c ow \<notin> set es2"
        and f2': "\<forall>c ow f. wf_world ?wl \<longrightarrow> injected ?wl (c, ow) = Some f \<longrightarrow> FinalizeRun c ow \<notin> set es2"
        by blast
      have l: "injections ?wl = injections wa" "injected ?wl = injected wa"
        "trace ?wl = trace wa @ [FinalizeRun (cid ct) owner]" "wf_world ?wl = wf_world wa"
        by (simp_all add: wf_log) (simp_all add: log_def)
      let ?es = "es1 @ FinalizeRun (cid ct) owner # es2"
      have tr: "trace w2 = trace w @ ?es" using t1 t2 l by simp
      have inj: "\<And>c ow. RulesRun c ow \<notin> set ?es \<Longrightarrow> injections w2 (c, ow) = injections w (c, ow)"
        using i1 i2 l by simp
      have injd: "\<And>c ow. FinalizeRun c ow \<notin> set ?es \<Longrightarrow> injected w2 (c, ow) = injected w (c, ow)"
        using j1 j2 l by simp
      have wf2: "wf_world w \<Longrightarrow> wf_world w2" using w1 w2 l by simp
      have nr: "\<And>c ow b. wf_world w \<Longrightarrow> injections w (c, ow) = Some b \<Longrightarrow> RulesRun c ow \<notin> set ?es"
      proof -
        fix c ow b
        assume wf: "wf_world w" and b: "injections w (c, ow) = Some b"
        have n1: "RulesRun c ow \<notin> set es1" using r1 wf b by blast
        then have "injections ?wl (c, ow) = Some b" using i1 b l by simp
        then have "RulesRun c ow \<notin> set es2" using r2 w1 wf l by blast
        with n1 show "RulesRun c ow \<notin> set ?es" by simp
      qed
      have nf: "\<And>c ow f. wf_world w \<Longrightarrow> injected w (c, ow) = Some f \<Longrightarrow> FinalizeRun c ow \<notin> set ?es"
      proof -
        fix c ow f
        assume wf: "wf_world w" and f: "injected w (c, ow) = Some f"
        have ne: "(c, ow) \<noteq> (cid ct, owner)"
        proof
          assume "(c, ow) = (cid ct, owner)"
          then have "injected w (cid ct, owner) = Some f" using f by simp
          from wf_injected_truthy [OF wf this] uncached show False by simp
        qed
        have n1: "FinalizeRun c ow \<notin> set es1" using f1 wf f by blast
        then have "injected ?wl (c, ow) = Some f" using j1 f l by simp
        then have "FinalizeRun c ow \<notin> set es2" using f2' w1 wf l by blast
        with n1 ne show "FinalizeRun c ow \<notin> set ?es" by auto
      qed
      have base: "cache_frame w w2"
        by (rule cache_frameI [of _ _ ?es]) (rule tr, erule inj, erule injd, erule wf2, erule (1) nr, erule (1) nf)
      show ?thesis
      proof (cases r2)
        case (Inl e)
        then show ?thesis using alive uncached g bag af base by (simp add: getInjected_with_uncached)
      next
        case (Inr gf)
        note gf = this
        show ?thesis
        proof (cases "WeakMap_set (injected w2) (cid ct) owner gf")
          case (Inl e)
          then show ?thesis using alive uncached g bag af gf base
            by (simp add: getInjected_with_uncached)
        next
          case (Inr m)
          have m: "m = (injected w2)((cid ct, owner) \<mapsto> gf)" by (rule WeakMap_set_eq [OF Inr])
          let ?w3 = "w2\<lparr>injected := (injected w2)((cid ct, owner) \<mapsto> gf)\<rparr>"
          have res: "Storage_getInjected_with h env ct owner w = (Inr gf, ?w3)"
            using alive uncached g bag af gf Inr m by (simp add: getInjected_with_uncached)
          have "cache_frame w ?w3"
          proof (rule cache_frameI [of _ _ ?es])
            show "trace ?w3 = trace w @ ?es" using tr by simp
          next
            fix c ow
            assume "RulesRun c ow \<notin> set ?es"
            then show "injections ?w3 (c, ow) = injections w (c, ow)" using inj by simp
          next
            fix c ow
            assume n: "FinalizeRun c ow \<notin> set ?es"
            then have "(c, ow) \<noteq> (cid ct, owner)" by auto
            then show "injected ?w3 (c, ow) = injected w (c, ow)" using injd [OF n] by auto
          next
            assume wf: "wf_world w"
            have wfa: "wf_world wa" using w1 wf by simp
            have wf2': "wf_world w2" by (rule wf2 [OF wf])
            from apply_finalize_with_Inr [OF af [unfolded gf]] obtain w' b where
              ga: "gf = Fun (nxt w')" and
              w2e: "w2 = w'\<lparr>nxt := Suc (nxt w'), funcs := (funcs w')(nxt w' \<mapsto> \<lparr>fbody = b, fthis = bag\<rparr>)\<rparr>"
              by blast
            have st: "injections wa (cid ct, owner) = Some bag"
              using getInjections_stored [OF g [unfolded bag]] by simp
            then have "RulesRun (cid ct) owner \<notin> set es2" using r2 wfa l by simp
            then have inj2: "injections w2 (cid ct, owner) = Some bag" using i2 st l by simp
            have "wf_world (w2\<lparr>injected := (injected w2)((cid ct, owner) \<mapsto> Fun (nxt w'))\<rparr>)"
              by (rule wf_cache_injected [OF wf2', where fr = "\<lparr>fbody = b, fthis = bag\<rparr>"])
                 (use inj2 in \<open>simp_all add: w2e\<close>)
            then show "wf_world ?w3" using ga by simp
          next
            fix c ow b
            assume "wf_world w" "injections w (c, ow) = Some b"
            then show "RulesRun c ow \<notin> set ?es" by (rule nr)
          next
            fix c ow f
            assume "wf_world w" "injected w (c, ow) = Some f"
            then show "FinalizeRun c ow \<notin> set ?es" by (rule nf)
          qed
          then show ?thesis using res by simp
        qed
      qed
    qed
  qed
qed

lemma makeConstructor_with_cache_frame:
  assumes h: "\<And>rq w. cache_frame w (snd (h rq w))"
  shows "cache_frame w (snd (makeConstructor_with h env ct nt this args w))"
  by (rule makeConstructor_with_rel [of cache_frame, OF cache_frame_reflp cache_frame_transp
        getInjected_with_cache_frame [OF h] invoke_with_cache_frame [OF h]])

lemma perform_cache_frame: "cache_frame w (snd (perform env n rq w))"
  by (rule perform_rel [of cache_frame, OF cache_frame_reflp])
     (erule read_with_cache_frame, erule makeConstructor_with_cache_frame,
      erule invoke_with_cache_frame)

lemmas host_cache_frame =
  host_rel [of cache_frame, OF cache_frame_reflp cache_frame_transp cache_frame_user
    perform_cache_frame getInjected_with_cache_frame [OF perform_cache_frame]
    invoke_with_cache_frame [OF perform_cache_frame]]

section \<open>Resolved getters across calls\<close>

lemma slot_frame_refl: "slot_frame w w"
  by (simp add: slot_frame_def)

lemma slot_frame_trans:
  assumes 1: "slot_frame w w'" and 2: "slot_frame w' w''"
  shows "slot_frame w w''"
  unfolding slot_frame_def
proof (intro conjI allI impI)
  show "nxt w \<le> nxt w''" using 1 2 by (simp add: slot_frame_def)
next
  fix a ob
  assume h: "a < nxt w \<and> objects w a = Some ob"
  with 1 obtain ob' where ob': "objects w' a = Some ob'"
    "\<forall>p s. props ob p = Some s \<and> resolved s \<longrightarrow> props ob' p = Some s"
    unfolding slot_frame_def by blast
  have "a < nxt w'" using h 1 by (simp add: slot_frame_def)
  with 2 ob' obtain ob'' where "objects w'' a = Some ob''"
    "\<forall>p s. props ob' p = Some s \<and> resolved s \<longrightarrow> props ob'' p = Some s"
    unfolding slot_frame_def by blast
  with ob' show "\<exists>ob''. objects w'' a = Some ob'' \<and>
      (\<forall>p s. props ob p = Some s \<and> resolved s \<longrightarrow> props ob'' p = Some s)"
    by blast
qed

lemma slot_frame_reflp: "reflp slot_frame"
  by (rule reflpI) (rule slot_frame_refl)

lemma slot_frame_transp: "transp slot_frame"
  by (rule transpI) (rule slot_frame_trans)

lemma slot_frame_objects:
  "nxt w \<le> nxt w' \<Longrightarrow> (\<forall>a. a < nxt w \<longrightarrow> objects w' a = objects w a) \<Longrightarrow> slot_frame w w'"
  by (simp add: slot_frame_def)

lemma slot_frame_log: "slot_frame w (log e w)"
  by (rule slot_frame_objects) (simp_all add: log_def)

lemma slot_frame_new_func: "slot_frame w (snd (new_func b t w))"
  by (rule slot_frame_objects) (simp_all add: new_func_def)

lemma slot_frame_injected: "slot_frame w (w\<lparr>injected := m\<rparr>)"
  by (rule slot_frame_objects) simp_all

lemma slot_frame_assign: "slot_frame w (snd (assign strict t p v w))"
  unfolding slot_frame_def
  by (auto simp: assign_def reject_def put_slot_def split: val.splits option.splits slot.splits)

lemma slot_frame_new_object: "slot_frame w (new_object w)"
  by (rule slot_frame_objects) (simp_all add: new_object_def)

lemmas slot_frame_user = slot_frame_assign slot_frame_new_object

lemma Storage_getInjections_objects:
  "nxt w \<le> nxt (snd (Storage_getInjections env ct owner w)) \<and>
   (\<forall>a. a < nxt w \<longrightarrow> objects (snd (Storage_getInjections env ct owner w)) a = objects w a)"
proof (cases "\<not> isDestroying env owner \<and> \<not> isDestroyed env owner")
  case False
  then show ?thesis by (simp add: getInjections_dead)
next
  case True
  then have alive: "\<not> isDestroying env owner" "\<not> isDestroyed env owner" by simp_all
  show ?thesis
  proof (cases "truthy (WeakMap_get (injections w) (cid ct) owner)")
    case True
    then show ?thesis using alive by (simp add: getInjections_cached)
  next
    case False
    let ?w0 = "log (RulesRun (cid ct) owner) w"
    obtain r w' where B: "Builder_getInjections (c_polaris ct) (c_properties ct) owner ?w0 = (r, w')"
      by (cases "Builder_getInjections (c_polaris ct) (c_properties ct) owner ?w0")
    from Builder_getInjections_shape [of "c_polaris ct" "c_properties ct" owner ?w0] B
    obtain ob' where w': "w' = ?w0\<lparr>nxt := Suc (nxt ?w0), objects := (objects ?w0)(nxt ?w0 \<mapsto> ob')\<rparr>"
      by auto
    have t: "nxt w \<le> nxt w'" "\<forall>a. a < nxt w \<longrightarrow> objects w' a = objects w a"
      by (simp_all add: w' log_def)
    have eq: "Storage_getInjections env ct owner w =
         (case r of Inl e \<Rightarrow> (Inl e, w') | Inr b \<Rightarrow>
             (case WeakMap_set (injections w') (cid ct) owner b of
                Inl e \<Rightarrow> (Inl e, w')
              | Inr m \<Rightarrow> (Inr b, w'\<lparr>injections := m\<rparr>)))"
      using False alive B by (simp add: getInjections_uncached split: sum.splits)
    show ?thesis unfolding eq using t by (auto split: sum.splits)
  qed
qed

lemma Storage_getInjections_slot_frame:
  "slot_frame w (snd (Storage_getInjections env ct owner w))"
  using Storage_getInjections_objects [of w env ct owner] by (simp add: slot_frame_objects)

lemma exec_slot_frame:
  "(\<And>rq w. slot_frame w (snd (h rq w))) \<Longrightarrow> slot_frame w (snd (exec h t c w))"
  by (rule exec_rel [of slot_frame, OF slot_frame_reflp slot_frame_transp slot_frame_user])

text \<open>A getter that was unresolved when the call began may be resolved by it.\<close>

lemma slot_frame_put_unresolved:
  assumes f: "slot_frame w w'" and o: "objects w a = Some ob" "props ob p = Some s0"
    and u: "\<not> resolved s0"
  shows "slot_frame w (put_slot a p s w')"
  unfolding slot_frame_def
proof (intro conjI allI impI)
  show "nxt w \<le> nxt (put_slot a p s w')"
    using f by (simp add: slot_frame_def put_slot_def split: option.splits)
next
  fix a' ob1
  assume h: "a' < nxt w \<and> objects w a' = Some ob1"
  with f obtain ob' where ob': "objects w' a' = Some ob'"
    "\<forall>p' s'. props ob1 p' = Some s' \<and> resolved s' \<longrightarrow> props ob' p' = Some s'"
    unfolding slot_frame_def by blast
  show "\<exists>ob''. objects (put_slot a p s w') a' = Some ob'' \<and>
      (\<forall>p' s'. props ob1 p' = Some s' \<and> resolved s' \<longrightarrow> props ob'' p' = Some s')"
  proof (cases "a' = a")
    case False
    then show ?thesis using ob' by (simp add: put_slot_def split: option.splits)
  next
    case True
    then have ob1: "ob1 = ob" using h o by simp
    have "objects (put_slot a p s w') a' = Some (ob'\<lparr>props := (props ob')(p \<mapsto> s)\<rparr>)"
      using True ob' by (simp add: put_slot_def)
    moreover have "\<forall>p' s'. props ob1 p' = Some s' \<and> resolved s' \<longrightarrow>
        props (ob'\<lparr>props := (props ob')(p \<mapsto> s)\<rparr>) p' = Some s'"
      using ob' ob1 o u by auto
    ultimately show ?thesis by blast
  qed
qed

lemma read_with_slot_frame:
  assumes h: "\<And>rq w. slot_frame w (snd (h rq w))"
  shows "slot_frame w (snd (read_with env h t p w))"
proof (cases t)
  case (Obj a)
  show ?thesis
  proof (cases "objects w a")
    case None
    then show ?thesis using Obj by (simp add: read_with_def slot_frame_refl)
  next
    case (Some ob)
    note ob = this
    show ?thesis
    proof (cases "props ob p")
      case None
      then show ?thesis using Obj ob by (simp add: read_with_def slot_frame_refl)
    next
      case (Some sl)
      note sl = this
      show ?thesis
      proof (cases sl)
        case (OwnerSlot ow)
        then show ?thesis using Obj ob sl by (simp add: read_with_def slot_frame_refl)
      next
        case (DataSlot v)
        then show ?thesis using Obj ob sl by (simp add: read_with_def slot_frame_refl)
      next
        case (ServiceSlot ow tok cell)
        show ?thesis
        proof (cases cell)
          case (Some v)
          then show ?thesis using Obj ob sl ServiceSlot by (simp add: read_with_def slot_frame_refl)
        next
          case None
          have sl0: "props ob p = Some (ServiceSlot ow tok None)" using sl ServiceSlot None by simp
          have l: "slot_frame w (log (LookupCall ow tok) w)" by (rule slot_frame_log)
          have lp: "\<And>s. slot_frame w (put_slot a p s (log (LookupCall ow tok) w))"
            by (rule slot_frame_put_unresolved [OF l ob sl0]) simp
          show ?thesis using Obj ob sl0 l lp
            by (simp add: read_with_def split: sum.splits)
        qed
      next
        case (PropertySlot ow cb cell)
        show ?thesis
        proof (cases cell)
          case (Some v)
          then show ?thesis using Obj ob sl PropertySlot by (simp add: read_with_def slot_frame_refl)
        next
          case None
          have sl0: "props ob p = Some (PropertySlot ow cb None)" using sl PropertySlot None by simp
          let ?w0 = "log (CallbackCall p ow) w"
          obtain r w' where r: "exec h t (cb ow) ?w0 = (r, w')"
            by (cases "exec h t (cb ow) ?w0")
          have "slot_frame ?w0 (snd (exec h t (cb ow) ?w0))" by (rule exec_slot_frame [OF h])
          then have "slot_frame ?w0 w'" using r by simp
          then have 1: "slot_frame w w'" by (rule slot_frame_trans [OF slot_frame_log])
          have 2: "\<And>s. slot_frame w (put_slot a p s w')"
            by (rule slot_frame_put_unresolved [OF 1 ob sl0]) simp
          show ?thesis using Obj ob sl0 r 1 2
            by (simp add: read_with_def split: sum.splits)
        qed
      qed
    qed
  qed
qed (simp_all add: read_with_def slot_frame_refl)

lemma invoke_with_slot_frame:
  "(\<And>rq w. slot_frame w (snd (h rq w))) \<Longrightarrow> slot_frame w (snd (invoke_with h f args w))"
  by (rule invoke_with_rel [of slot_frame, OF slot_frame_reflp slot_frame_transp
        slot_frame_user slot_frame_log])

lemma getInjected_with_slot_frame:
  "(\<And>rq w. slot_frame w (snd (h rq w))) \<Longrightarrow>
   slot_frame w (snd (Storage_getInjected_with h env ct owner w))"
  by (rule getInjected_with_rel [of slot_frame, OF slot_frame_reflp slot_frame_transp
        slot_frame_user slot_frame_new_func Storage_getInjections_slot_frame slot_frame_log
        slot_frame_injected])

lemma makeConstructor_with_slot_frame:
  assumes h: "\<And>rq w. slot_frame w (snd (h rq w))"
  shows "slot_frame w (snd (makeConstructor_with h env ct nt this args w))"
  by (rule makeConstructor_with_rel [of slot_frame, OF slot_frame_reflp slot_frame_transp
        getInjected_with_slot_frame [OF h] invoke_with_slot_frame [OF h]])

lemma perform_slot_frame: "slot_frame w (snd (perform env n rq w))"
  by (rule perform_rel [of slot_frame, OF slot_frame_reflp])
     (erule read_with_slot_frame, erule makeConstructor_with_slot_frame,
      erule invoke_with_slot_frame)

lemmas host_slot_frame =
  host_rel [of slot_frame, OF slot_frame_reflp slot_frame_transp slot_frame_user
    perform_slot_frame getInjected_with_slot_frame [OF perform_slot_frame]
    invoke_with_slot_frame [OF perform_slot_frame]]

section \<open>The invariant is kept\<close>

lemma Storage_getInjected_wf: "wf_world w \<Longrightarrow> wf_world (snd (Storage_getInjected env ct owner w))"
  by (rule cache_frame_wf [OF host_cache_frame(1)])

lemma invoke_wf: "wf_world w \<Longrightarrow> wf_world (snd (invoke env f args w))"
  by (rule cache_frame_wf [OF host_cache_frame(2)])

lemma ctor_new_wf: "wf_world w \<Longrightarrow> wf_world (snd (ctor_new env ct args w))"
  by (rule cache_frame_wf [OF host_cache_frame(3)])

lemma ctor_call_wf: "wf_world w \<Longrightarrow> wf_world (snd (ctor_call env ct this args w))"
  by (rule cache_frame_wf [OF host_cache_frame(4)])

lemma createHelper_wf: "wf_world w \<Longrightarrow> wf_world (snd (createHelper env owner ct a w))"
  by (rule cache_frame_wf [OF host_cache_frame(5)])

lemma getValue_wf: "wf_world w \<Longrightarrow> wf_world (snd (getValue env st w))"
  by (rule cache_frame_wf [OF host_cache_frame(6)])

lemma user_wf: "wf_world w \<Longrightarrow> wf_world (snd (exec (perform env n) t c w))"
  by (rule cache_frame_wf [OF host_cache_frame(7)])

lemma constructorFor_wf: "wf_world w \<Longrightarrow> wf_world (snd (constructorFor pol ps fin name w))"
  by (erule wf_cong) (simp_all add: constructorFor_def)

lemma helperFor_wf: "wf_world w \<Longrightarrow> wf_world (snd (helperFor f w))"
  by (cases "isInjectable w f") (auto simp: helperFor_def assert_def elim: wf_cong)

lemma new_Builder_wf: "wf_world w \<Longrightarrow> wf_world (snd (new_Builder ps w))"
  by (erule wf_cong) (simp_all add: new_Builder_def)

lemma Builder_chain_wf:
  assumes "wf_world w"
  shows "wf_world (snd (Builder_chain b r w))"
proof (cases "builders w b")
  case None
  then show ?thesis using assms by (simp add: Builder_chain_def)
next
  case (Some ps)
  have "wf_world (snd (new_Builder (ps @ [r]) w))" by (rule new_Builder_wf [OF assms])
  then show ?thesis using Some by (auto simp: Builder_chain_def split: prod.splits)
qed

lemma Builder_into_wf:
  assumes "wf_world w"
  shows "wf_world (snd (Builder_into pol b name fn w))"
proof (cases "builders w b")
  case None
  then show ?thesis using assms by (simp add: Builder_into_def)
next
  case (Some ps)
  obtain ct w' where c: "constructorFor pol ps (Into fn) name w = (ct, w')"
    by (cases "constructorFor pol ps (Into fn) name w")
  have "wf_world w'" using constructorFor_wf [OF assms, of pol ps "Into fn" name] c by simp
  then have "wf_world (snd (helperFor ct w'))" by (rule helperFor_wf)
  then show ?thesis using Some c by (simp add: Builder_into_def)
qed

lemma Builder_build_wf:
  assumes "wf_world w"
  shows "wf_world (snd (Builder_build pol b name cb w))"
proof (cases "builders w b")
  case None
  then show ?thesis using assms by (simp add: Builder_build_def)
next
  case (Some ps)
  obtain ct w' where c: "constructorFor pol ps (Build cb) name w = (ct, w')"
    by (cases "constructorFor pol ps (Build cb) name w")
  have "wf_world w'" using constructorFor_wf [OF assms, of pol ps "Build cb" name] c by simp
  then have "wf_world (snd (helperFor ct w'))" by (rule helperFor_wf)
  then show ?thesis using Some c by (simp add: Builder_build_def)
qed

lemma wf_init_world: "wf_world init_world"
  unfolding init_world_def by (rule new_Builder_wf [OF wf_empty_world])

section \<open>Steps\<close>

lemma Builder_chain_caches:
  "trace (snd (Builder_chain b r w)) = trace w \<and>
   injections (snd (Builder_chain b r w)) = injections w \<and>
   injected (snd (Builder_chain b r w)) = injected w \<and>
   objects (snd (Builder_chain b r w)) = objects w \<and>
   nxt w \<le> nxt (snd (Builder_chain b r w)) \<and>
   INJECTABLE (snd (Builder_chain b r w)) = INJECTABLE w"
  by (simp add: Builder_chain_def new_Builder_def split: option.splits)

lemma Builder_into_caches:
  "trace (snd (Builder_into pol b name fn w)) = trace w \<and>
   injections (snd (Builder_into pol b name fn w)) = injections w \<and>
   injected (snd (Builder_into pol b name fn w)) = injected w \<and>
   objects (snd (Builder_into pol b name fn w)) = objects w \<and>
   nxt w \<le> nxt (snd (Builder_into pol b name fn w)) \<and>
   INJECTABLE w \<subseteq> INJECTABLE (snd (Builder_into pol b name fn w))"
  by (auto simp: Builder_into_def constructorFor_def helperFor_def assert_def isInjectable_def
      split: option.splits)

lemma Builder_build_caches:
  "trace (snd (Builder_build pol b name cb w)) = trace w \<and>
   injections (snd (Builder_build pol b name cb w)) = injections w \<and>
   injected (snd (Builder_build pol b name cb w)) = injected w \<and>
   objects (snd (Builder_build pol b name cb w)) = objects w \<and>
   nxt w \<le> nxt (snd (Builder_build pol b name cb w)) \<and>
   INJECTABLE w \<subseteq> INJECTABLE (snd (Builder_build pol b name cb w))"
  by (auto simp: Builder_build_def constructorFor_def helperFor_def assert_def isInjectable_def
      split: option.splits)

lemma helperFor_caches:
  "trace (snd (helperFor ct w)) = trace w \<and>
   injections (snd (helperFor ct w)) = injections w \<and>
   injected (snd (helperFor ct w)) = injected w \<and>
   objects (snd (helperFor ct w)) = objects w \<and>
   nxt (snd (helperFor ct w)) = nxt w \<and>
   builders (snd (helperFor ct w)) = builders w \<and>
   INJECTABLE (snd (helperFor ct w)) = INJECTABLE w"
  by (simp add: helperFor_def assert_def split: sum.splits)

lemma step_cache_frame: "step w w' \<Longrightarrow> cache_frame w w'"
proof (induction rule: step.induct)
  case (step_helperFor w ct)
  show ?case by (rule cache_frame_same) (simp_all add: helperFor_caches helperFor_wf)
next
  case (step_chain w b r)
  show ?case by (rule cache_frame_same) (simp_all add: Builder_chain_caches Builder_chain_wf)
next
  case (step_into w pol b name fn)
  show ?case by (rule cache_frame_same) (simp_all add: Builder_into_caches Builder_into_wf)
next
  case (step_build w pol b name cb)
  show ?case by (rule cache_frame_same) (simp_all add: Builder_build_caches Builder_build_wf)
next
  case (step_getInjections w env ct owner)
  show ?case by (rule Storage_getInjections_cache_frame)
qed (rule host_cache_frame)+

lemma step_slot_frame: "step w w' \<Longrightarrow> slot_frame w w'"
proof (induction rule: step.induct)
  case (step_helperFor w ct)
  show ?case by (rule slot_frame_objects) (simp_all add: helperFor_caches)
next
  case (step_chain w b r)
  show ?case by (rule slot_frame_objects) (simp_all add: Builder_chain_caches)
next
  case (step_into w pol b name fn)
  show ?case by (rule slot_frame_objects) (simp_all add: Builder_into_caches)
next
  case (step_build w pol b name cb)
  show ?case by (rule slot_frame_objects) (simp_all add: Builder_build_caches)
next
  case (step_getInjections w env ct owner)
  show ?case by (rule Storage_getInjections_slot_frame)
qed (rule host_slot_frame)+


lemma steps_slot_frame: "rtranclp step w w' \<Longrightarrow> slot_frame w w'"
  by (induction rule: rtranclp_induct)
     (auto intro: slot_frame_refl slot_frame_trans step_slot_frame)

lemma step_wf: "step w w' \<Longrightarrow> wf_world w \<Longrightarrow> wf_world w'"
  by (rule cache_frame_wf [OF step_cache_frame])

lemma call_frame_builders_allocated:
  "call_frame w w' \<Longrightarrow> builders_allocated w \<Longrightarrow> builders_allocated w'"
  by (auto simp: call_frame_def builders_allocated_def intro: less_le_trans)

lemma Builder_chain_builders_allocated:
  "builders_allocated w \<Longrightarrow> builders_allocated (snd (Builder_chain b r w))"
  by (auto simp: Builder_chain_def new_Builder_def builders_allocated_def less_Suc_eq
      split: option.splits)

lemma Builder_into_builders_allocated:
  "builders_allocated w \<Longrightarrow> builders_allocated (snd (Builder_into pol b name fn w))"
  by (auto simp: Builder_into_def constructorFor_def helperFor_def assert_def isInjectable_def
      builders_allocated_def less_Suc_eq split: option.splits)

lemma Builder_build_builders_allocated:
  "builders_allocated w \<Longrightarrow> builders_allocated (snd (Builder_build pol b name cb w))"
  by (auto simp: Builder_build_def constructorFor_def helperFor_def assert_def isInjectable_def
      builders_allocated_def less_Suc_eq split: option.splits)

lemma step_builders_allocated: "step w w' \<Longrightarrow> builders_allocated w \<Longrightarrow> builders_allocated w'"
proof (induction rule: step.induct)
  case (step_helperFor w ct)
  then show ?case by (simp add: builders_allocated_def helperFor_caches)
next
  case (step_chain w b r)
  then show ?case by (rule Builder_chain_builders_allocated)
next
  case (step_into w pol b name fn)
  then show ?case by (rule Builder_into_builders_allocated)
next
  case (step_build w pol b name cb)
  then show ?case by (rule Builder_build_builders_allocated)
next
  case (step_getInjections w env ct owner)
  then show ?case by (rule call_frame_builders_allocated [OF Storage_getInjections_call_frame])
qed (erule call_frame_builders_allocated [rotated], rule host_call_frame)+

text \<open>No step removes a marker.\<close>

lemma step_INJECTABLE: "step w w' \<Longrightarrow> INJECTABLE w \<subseteq> INJECTABLE w'"
proof (induction rule: step.induct)
  case (step_chain w b r)
  show ?case by (simp add: Builder_chain_caches)
next
  case (step_into w pol b name fn)
  show ?case by (simp add: Builder_into_caches)
next
  case (step_build w pol b name cb)
  show ?case by (simp add: Builder_build_caches)
next
  case (step_new w env ct args)
  show ?case using host_call_frame(3) [of w env ct args] by (simp add: call_frame_def)
next
  case (step_call w env ct this args)
  show ?case using host_call_frame(4) [of w env ct this args] by (simp add: call_frame_def)
next
  case (step_getInjections w env ct owner)
  show ?case using Storage_getInjections_call_frame [of w env ct owner] by (simp add: call_frame_def)
next
  case (step_getInjected w env ct owner)
  show ?case using host_call_frame(1) [of w env ct owner] by (simp add: call_frame_def)
next
  case (step_invoke w env f args)
  show ?case using host_call_frame(2) [of w env f args] by (simp add: call_frame_def)
next
  case (step_createHelper w env owner ct a)
  show ?case using host_call_frame(5) [of w env owner ct a] by (simp add: call_frame_def)
next
  case (step_getValue w env st)
  show ?case using host_call_frame(6) [of w env st] by (simp add: call_frame_def)
next
  case (step_user w env n t c)
  show ?case using host_call_frame(7) [of w env n t c] by (simp add: call_frame_def)
next
  case (step_helperFor w ct)
  show ?case by (simp add: helperFor_caches)
qed

lemma steps_INJECTABLE: "rtranclp step w w' \<Longrightarrow> INJECTABLE w \<subseteq> INJECTABLE w'"
  by (induction rule: rtranclp_induct) (auto dest: step_INJECTABLE)

lemma builders_allocated_init_world: "builders_allocated init_world"
  by (simp add: builders_allocated_def init_world_def new_Builder_def empty_world_def)

lemma reachable_invariant: "reachable w \<Longrightarrow> wf_world w \<and> builders_allocated w"
  unfolding reachable_def
  by (induction rule: rtranclp_induct)
     (auto simp: wf_init_world builders_allocated_init_world
        intro: step_wf step_builders_allocated)

section \<open>Traces of one call\<close>

lemma getInjections_trace:
  "trace (snd (Storage_getInjections env ct owner w)) = trace w \<or>
   trace (snd (Storage_getInjections env ct owner w)) = trace w @ [RulesRun (cid ct) owner]"
proof (cases "\<not> isDestroying env owner \<and> \<not> isDestroyed env owner")
  case False
  then show ?thesis by (auto simp: Storage_getInjections_def assert_def)
next
  case True
  then have alive: "\<not> isDestroying env owner" "\<not> isDestroyed env owner" by simp_all
  show ?thesis
  proof (cases "truthy (WeakMap_get (injections w) (cid ct) owner)")
    case True
    then show ?thesis using alive by (simp add: getInjections_cached)
  next
    case False
    let ?w0 = "log (RulesRun (cid ct) owner) w"
    obtain r w' where B: "Builder_getInjections (c_polaris ct) (c_properties ct) owner ?w0 = (r, w')"
      by (cases "Builder_getInjections (c_polaris ct) (c_properties ct) owner ?w0")
    have "trace w' = trace ?w0"
      using Builder_getInjections_trace [of "c_polaris ct" "c_properties ct" owner ?w0] B by simp
    then have "trace w' = trace w @ [RulesRun (cid ct) owner]" by (simp add: log_def)
    then show ?thesis using False alive B
      by (simp add: getInjections_uncached split: sum.splits)
  qed
qed

text \<open>A constructor made by \<^verbatim>\<open>into\<close> runs no user code when it is instantiated.\<close>

lemma getInjected_with_Into_trace:
  assumes fin: "c_finalize ct = Into fn"
  shows "\<exists>rs fs. trace (snd (Storage_getInjected_with h env ct owner w)) = trace w @ rs @ fs \<and>
     (rs = [] \<or> rs = [RulesRun (cid ct) owner]) \<and>
     (fs = [] \<or> fs = [FinalizeRun (cid ct) owner])"
proof (cases "\<not> isDestroying env owner \<and> \<not> isDestroyed env owner")
  case False
  then have "trace (snd (Storage_getInjected_with h env ct owner w)) = trace w @ [] @ []"
    by (simp add: getInjected_with_dead)
  then show ?thesis by (intro exI [of _ "[]"]) simp
next
  case True
  then have alive: "\<not> isDestroying env owner" "\<not> isDestroyed env owner" by simp_all
  show ?thesis
  proof (cases "truthy (WeakMap_get (injected w) (cid ct) owner)")
    case True
    then have "trace (snd (Storage_getInjected_with h env ct owner w)) = trace w @ [] @ []"
      using alive by (simp add: getInjected_with_cached)
    then show ?thesis by (intro exI [of _ "[]"]) simp
  next
    case False
    obtain r wa where gi: "Storage_getInjections env ct owner w = (r, wa)"
      by (cases "Storage_getInjections env ct owner w")
    from getInjections_trace [of env ct owner w] gi obtain rs where
      rs: "trace wa = trace w @ rs" "rs = [] \<or> rs = [RulesRun (cid ct) owner]" by auto
    show ?thesis
    proof (cases r)
      case (Inl e)
      then have "trace (snd (Storage_getInjected_with h env ct owner w)) = trace w @ rs @ []"
        using alive False gi rs by (simp add: getInjected_with_uncached)
      then show ?thesis using rs(2) by (intro exI [of _ rs] exI [of _ "[]"]) simp
    next
      case (Inr bag)
      have "trace (snd (Storage_getInjected_with h env ct owner w)) =
          trace w @ rs @ [FinalizeRun (cid ct) owner]"
        using alive False gi Inr rs fin
        by (simp add: getInjected_with_uncached apply_finalize_with_Into log_def split: sum.splits)
      then show ?thesis using rs(2)
        by (intro exI [of _ rs] exI [of _ "[FinalizeRun (cid ct) owner]"]) simp
    qed
  qed
qed

lemma getInjected_Into_trace:
  assumes fin: "c_finalize ct = Into fn"
  shows "\<exists>rs fs. trace (snd (Storage_getInjected env ct owner w)) = trace w @ rs @ fs \<and>
     (rs = [] \<or> rs = [RulesRun (cid ct) owner]) \<and>
     (fs = [] \<or> fs = [FinalizeRun (cid ct) owner])"
  unfolding Storage_getInjected_def by (rule getInjected_with_Into_trace [OF fin])






section \<open>Builders, reads and the example data\<close>

lemma Builder_chain_eq:
  assumes "builders w b = Some ps"
  shows "Builder_chain b r w =
     (Inr (nxt w), w\<lparr>nxt := Suc (nxt w), builders := (builders w)(nxt w \<mapsto> ps @ [r])\<rparr>)"
  using assms by (simp add: Builder_chain_def new_Builder_def)

lemma Builder_into_eq:
  assumes "builders w b = Some ps"
  shows "Builder_into pol b name fn w =
     (Inr \<lparr>cid = nxt w, c_polaris = pol, c_properties = ps, c_finalize = Into fn, c_name = name\<rparr>,
      w\<lparr>nxt := Suc (nxt w),
        constructors := (constructors w)(nxt w \<mapsto>
          \<lparr>cid = nxt w, c_polaris = pol, c_properties = ps, c_finalize = Into fn, c_name = name\<rparr>),
        STORAGE := insert (nxt w) (STORAGE w),
        INJECTABLE := insert (nxt w) (INJECTABLE w), managers := insert (nxt w) (managers w)\<rparr>)"
  using assms
  by (simp add: Builder_into_def constructorFor_def helperFor_def assert_def isInjectable_def)

lemma Builder_build_eq:
  assumes "builders w b = Some ps"
  shows "Builder_build pol b name cb w =
     (Inr \<lparr>cid = nxt w, c_polaris = pol, c_properties = ps, c_finalize = Build cb, c_name = name\<rparr>,
      w\<lparr>nxt := Suc (nxt w),
        constructors := (constructors w)(nxt w \<mapsto>
          \<lparr>cid = nxt w, c_polaris = pol, c_properties = ps, c_finalize = Build cb, c_name = name\<rparr>),
        STORAGE := insert (nxt w) (STORAGE w),
        INJECTABLE := insert (nxt w) (INJECTABLE w), managers := insert (nxt w) (managers w)\<rparr>)"
  using assms
  by (simp add: Builder_build_def constructorFor_def helperFor_def assert_def isInjectable_def)

text \<open>A getter that has resolved answers from its variable.\<close>

lemma read_cached_service:
  "objects w a = Some ob \<Longrightarrow> props ob p = Some (ServiceSlot owner tok (Some v)) \<Longrightarrow>
   read env (Suc n) (Obj a) p w = (Inr v, w)"
  by (simp add: read_Suc read_with_def)

lemma read_cached_property:
  "objects w a = Some ob \<Longrightarrow> props ob p = Some (PropertySlot owner cb (Some v)) \<Longrightarrow>
   read env (Suc n) (Obj a) p w = (Inr v, w)"
  by (simp add: read_Suc read_with_def)

text \<open>The first read: the getter of a service rule, and the getter of a property rule.\<close>

lemma read_service_unresolved:
  assumes "objects w a = Some ob" "props ob p = Some (ServiceSlot owner tok None)"
  shows "read env (Suc n) (Obj a) p w =
     (case lookup env owner tok of
        Inl e \<Rightarrow> (Inl e, log (LookupCall owner tok) w)
      | Inr v \<Rightarrow> (Inr v, put_slot a p (ServiceSlot owner tok (Some v)) (log (LookupCall owner tok) w)))"
  using assms by (simp add: read_Suc read_with_def)

lemma read_property_unresolved:
  assumes "objects w a = Some ob" "props ob p = Some (PropertySlot owner cb None)"
  shows "read env (Suc n) (Obj a) p w =
     (case exec (perform env n) (Obj a) (cb owner) (log (CallbackCall p owner) w) of
        (Inl e, w') \<Rightarrow> (Inl e, w')
      | (Inr v, w') \<Rightarrow> (Inr v, put_slot a p (PropertySlot owner cb (Some v)) w'))"
  using assms by (simp add: read_Suc read_with_def)

lemma first_read_service:
  assumes o: "objects w a = Some ob" "props ob p = Some (ServiceSlot owner tok None)"
    and r: "read env (Suc n) (Obj a) p w = (Inr v, w1)"
  shows "lookup env owner tok = Inr v \<and> trace w1 = trace w @ [LookupCall owner tok] \<and>
         nxt w1 = nxt w \<and>
         (\<exists>ob1. objects w1 a = Some ob1 \<and> props ob1 p = Some (ServiceSlot owner tok (Some v)))"
  using r o unfolding read_service_unresolved [OF o]
  by (auto simp: put_slot_def log_def split: sum.splits)

lemma failed_read_service:
  assumes o: "objects w a = Some ob" "props ob p = Some (ServiceSlot owner tok None)"
    and r: "read env (Suc n) (Obj a) p w = (Inl e, w1)"
  shows "lookup env owner tok = Inl e \<and> w1 = log (LookupCall owner tok) w"
  using r unfolding read_service_unresolved [OF o] by (auto split: sum.splits)

lemma first_read_property:
  assumes o: "objects w a = Some ob" "props ob p = Some (PropertySlot owner cb None)"
    and r: "read env (Suc n) (Obj a) p w = (Inr v, w1)"
  shows "(\<exists>w'. exec (perform env n) (Obj a) (cb owner) (log (CallbackCall p owner) w) = (Inr v, w') \<and>
            w1 = put_slot a p (PropertySlot owner cb (Some v)) w') \<and>
         (a < nxt w \<longrightarrow> a < nxt w1 \<and>
            (\<exists>ob1. objects w1 a = Some ob1 \<and> props ob1 p = Some (PropertySlot owner cb (Some v))))"
proof -
  let ?w0 = "log (CallbackCall p owner) w"
  obtain r' w' where x: "exec (perform env n) (Obj a) (cb owner) ?w0 = (r', w')"
    by (cases "exec (perform env n) (Obj a) (cb owner) ?w0")
  have rv: "r' = Inr v" and w1: "w1 = put_slot a p (PropertySlot owner cb (Some v)) w'"
    using r x unfolding read_property_unresolved [OF o] by (auto split: sum.splits)
  have sf: "slot_frame ?w0 w'" using host_slot_frame(7) [of ?w0 env n "Obj a" "cb owner"] x by simp
  have "a < nxt w \<longrightarrow> a < nxt w1 \<and>
            (\<exists>ob1. objects w1 a = Some ob1 \<and> props ob1 p = Some (PropertySlot owner cb (Some v)))"
  proof
    assume a: "a < nxt w"
    then have "a < nxt ?w0" "objects ?w0 a = Some ob" using o by (simp_all add: log_def)
    with sf obtain ob' where ob': "objects w' a = Some ob'" and "nxt ?w0 \<le> nxt w'"
      unfolding slot_frame_def by blast
    then show "a < nxt w1 \<and>
            (\<exists>ob1. objects w1 a = Some ob1 \<and> props ob1 p = Some (PropertySlot owner cb (Some v)))"
      using a by (simp add: w1 put_slot_def log_def)
  qed
  then show ?thesis using x rv w1 by blast
qed

lemma failed_read_property:
  assumes o: "objects w a = Some ob" "props ob p = Some (PropertySlot owner cb None)"
    and r: "read env (Suc n) (Obj a) p w = (Inl e, w1)"
  shows "exec (perform env n) (Obj a) (cb owner) (log (CallbackCall p owner) w) = (Inl e, w1)"
  using r unfolding read_property_unresolved [OF o] by (auto split: sum.splits prod.splits)

text \<open>What a first read has stored is what every later read returns.\<close>

lemma later_read:
  assumes a: "a < nxt w1" and o: "objects w1 a = Some ob1" "props ob1 p = Some s"
    and s: "s = ServiceSlot owner tok (Some v) \<or> s = PropertySlot owner cb (Some v)"
    and st: "rtranclp step w1 w2"
  shows "read env (Suc m) (Obj a) p w2 = (Inr v, w2)"
proof -
  have "slot_frame w1 w2" by (rule steps_slot_frame [OF st])
  moreover have "resolved s" using s by auto
  ultimately obtain ob2 where "objects w2 a = Some ob2" "props ob2 p = Some s"
    using a o unfolding slot_frame_def by blast
  then show ?thesis using s by (auto simp: read_cached_service read_cached_property)
qed

lemmas eval_defs =
  Builder_service_def Builder_property_def Builder_owner_def Builder_chain_def inject_def
  init_world_def new_Builder_def empty_world_def Builder_into_def Builder_build_def
  constructorFor_def helperFor_def assert_def isInjectable_def ctor_new_eq first_arg_def ctor_call_eq
  call_checked_eq call_unchecked_eq Storage_getInjected_def Storage_getInjected_with_def
  Storage_getInjections_def makeConstructor_with_def call_checked_with_def call_unchecked_with_def
  WeakMap_get_def WeakMap_set_def Builder_getInjections_def Object_defineProperty_def
  define_rule_def put_slot_def Object_freeze_def log_def apply_finalize_with_def new_func_def
  invoke_def invoke_with_def read_def read_with_def Let_def
  env_dev_def env_gone_def env_prod_def env_any_def f_body_def
  demo_ctor_def demo_world_def demo_bag_def demo_cached_def dup_ctor_def dup_world_def
  dup_world1_def dup_world2_def bad_ctor_def bad_world_def bad_world1_def bad_world2_def
  miss_ctor_def miss_world_def miss_bag_def miss_read1_def miss_read2_def anon_ctor_def
  anon_world_def assign_def reject_def five_def g_body_def h_body_def failing_callback_def
  one_body_def one_callback_def inner_body_def again_callback_def again_ctor_def again_world_def
  again_world1_def self_reading_def self_ctor_def self_world_def self_bag_def self_read_def
  calling_callback_def calling_ctor_def calling_world_def throwing_def boom_ctor_def
  flag_world_def new_object_def
  boom_world_def boom_bag_def

lemma wf_demo_world: "wf_world demo_world"
  unfolding demo_world_def Builder_property_def Builder_service_def
  by (intro Builder_into_wf Builder_chain_wf wf_init_world)

lemma demo_new: "ctor_new env_dev demo_ctor [Obj 7] demo_world = (Inr (Fun 5), demo_cached)"
proof -
  have "fst (ctor_new env_dev demo_ctor [Obj 7] demo_world) = Inr (Fun 5)"
    by (simp add: eval_defs)
  then show ?thesis by (simp add: demo_cached_def prod_eq_iff)
qed

lemma demo_getInjections:
  "Storage_getInjections env_dev demo_ctor (Obj 7) demo_world = (Inr (Obj 4), demo_bag)"
proof -
  have "fst (Storage_getInjections env_dev demo_ctor (Obj 7) demo_world) = Inr (Obj 4)"
    by (simp add: eval_defs)
  then show ?thesis by (simp add: demo_bag_def prod_eq_iff)
qed

section \<open>The end-to-end scenario of the specification\<close>

text \<open>
  \<^verbatim>\<open>.service('config').property('computedX', ...).into(function f(a) { ... })\<close> with
  \<^verbatim>\<open>config.value = 10\<close> and a computed value of 5: \<^verbatim>\<open>new ctor(O)\<close> and then two
  invocations, with 3 and with 4, return 18 and 19, and the lookup and the callback have
  each run once.
\<close>

lemma scenario:
  "fst (invoke env_dev (Fun 5) [Num 3] demo_cached) = Inr (Num 18) \<and>
   fst (invoke env_dev (Fun 5) [Num 4] (snd (invoke env_dev (Fun 5) [Num 3] demo_cached))) =
     Inr (Num 19) \<and>
   trace (snd (invoke env_dev (Fun 5) [Num 4] (snd (invoke env_dev (Fun 5) [Num 3] demo_cached)))) =
     [RulesRun 3 (Obj 7), FinalizeRun 3 (Obj 7), Invoke 5 [Num 3],
      LookupCall (Obj 7) (Str ''service:config''), CallbackCall ''computedX'' (Obj 7),
      Invoke 5 [Num 4]]"
  by (simp add: eval_defs numeral_nat)

section \<open>The claims\<close>

subsection \<open>C1: idempotent memoization\<close>




subsection \<open>C2: destruction guard\<close>

text \<open>
  Claim C2. For an owner that is being destroyed or has been destroyed, both
  \<open>getInjections(owner)\<close> and \<open>getInjected(owner)\<close> fail their assertion and leave the
  state as it is, whatever the two weak maps hold for that owner: the guard comes before
  any look into them.
\<close>

theorem destruction_guard:
  assumes "isDestroying env owner \<or> isDestroyed env owner"
  shows "Storage_getInjections env ct owner w =
           (Inl (AssertionFailed (if isDestroying env owner then msg_destroying else msg_destroyed)), w) \<and>
         Storage_getInjected env ct owner w =
           (Inl (AssertionFailed (if isDestroying env owner then msg_destroying else msg_destroyed)), w)"
  using assms by (auto simp: Storage_getInjections_def Storage_getInjected_def Storage_getInjected_with_def
      assert_def)

text \<open>The owner at address 7 is destroyed after its bag and its injected function were
  cached.\<close>

theorem destruction_guard_witness:
  "isDestroyed env_gone (Obj 7) \<and>
   injections demo_cached (cid demo_ctor, Obj 7) = Some (Obj 4) \<and>
   injected demo_cached (cid demo_ctor, Obj 7) = Some (Fun 5) \<and>
   Storage_getInjections env_gone demo_ctor (Obj 7) demo_cached =
     (Inl (AssertionFailed msg_destroyed), demo_cached) \<and>
   Storage_getInjected env_gone demo_ctor (Obj 7) demo_cached =
     (Inl (AssertionFailed msg_destroyed), demo_cached)"
proof -
  have g: "isDestroyed env_gone (Obj 7)" and n: "\<not> isDestroying env_gone (Obj 7)"
    by (simp_all add: env_gone_def env_dev_def)
  have c: "injections demo_cached (cid demo_ctor, Obj 7) = Some (Obj 4)"
    "injected demo_cached (cid demo_ctor, Obj 7) = Some (Fun 5)"
    by (simp_all add: eval_defs)
  from destruction_guard [of env_gone "Obj 7" demo_ctor demo_cached] g n c
  show ?thesis by simp
qed

subsection \<open>C3: dual invocation modes\<close>

text \<open>
  Claim C3. For a constructor \<open>C\<close>, an owner \<open>O\<close> and a receiver object from which the
  owner resolution resolves \<open>O\<close>: \<open>new C(O)\<close> is \<open>getInjected(O)\<close>, and for a
  constructor made by \<open>into\<close> it calls no function (finalize is
  \<^verbatim>\<open>fn.bind(injections)\<close>; the callback of a \<open>build\<close> constructor is user code
  and calls what it likes); a plain call of \<open>C\<close> on the receiver with arguments \<open>args\<close> is \<open>new C(O)\<close>
  followed by a call of the function it returned with \<open>args\<close> (and fails as \<open>new C(O)\<close>
  does when that fails); and once \<open>new C(O)\<close> has returned \<open>g\<close>, the plain call and
  \<open>g(args)\<close> give the same result and the same state.
\<close>

theorem dual_invocation:
  assumes recv: "is_object this" "getOwner env this = Inr owner" "truthy owner"
  shows "ctor_new env ct (owner # rest) w = Storage_getInjected env ct owner w \<and>
         (\<forall>fn. c_finalize ct = Into fn \<longrightarrow>
            (\<exists>es. trace (snd (ctor_new env ct (owner # rest) w)) = trace w @ es \<and>
                  list_all (\<lambda>e. \<not> is_Invoke e) es)) \<and>
         ctor_call env ct this args w =
           (case ctor_new env ct (owner # rest) w of
              (Inl e, w1) \<Rightarrow> (Inl e, w1)
            | (Inr g, w1) \<Rightarrow> invoke env g args w1) \<and>
         (\<forall>g w1. ctor_new env ct (owner # rest) w = (Inr g, w1) \<longrightarrow>
            ctor_call env ct this args w1 = invoke env g args w1)"
proof (intro conjI allI impI)
  show n: "ctor_new env ct (owner # rest) w = Storage_getInjected env ct owner w"
    by (simp add: ctor_new_eq first_arg_def)
  have c: "\<And>w0. ctor_call env ct this args w0 =
       (case Storage_getInjected env ct owner w0 of
          (Inl e, w1) \<Rightarrow> (Inl e, w1)
        | (Inr g, w1) \<Rightarrow> invoke env g args w1)"
    using recv by (simp add: ctor_call_eq call_checked_eq call_unchecked_eq assert_def)
  show "ctor_call env ct this args w =
           (case ctor_new env ct (owner # rest) w of
              (Inl e, w1) \<Rightarrow> (Inl e, w1)
            | (Inr g, w1) \<Rightarrow> invoke env g args w1)"
    unfolding n by (rule c)
  {
    fix g w1
    assume "ctor_new env ct (owner # rest) w = (Inr g, w1)"
    then have "Storage_getInjected env ct owner w = (Inr g, w1)" by (simp add: n)
    then have "Storage_getInjected env ct owner w1 = (Inr g, w1)" by (rule getInjected_memo)
    then show "ctor_call env ct this args w1 = invoke env g args w1" by (simp add: c)
  }
  fix fn
  assume "c_finalize ct = Into fn"
  from getInjected_Into_trace [OF this, of env owner w] obtain rs fs where
    t: "trace (snd (Storage_getInjected env ct owner w)) = trace w @ rs @ fs"
    and rs: "rs = [] \<or> rs = [RulesRun (cid ct) owner]"
    and fs: "fs = [] \<or> fs = [FinalizeRun (cid ct) owner]" by blast
  have "list_all (\<lambda>e. \<not> is_Invoke e) (rs @ fs)" using rs fs by auto
  then show "\<exists>es. trace (snd (ctor_new env ct (owner # rest) w)) = trace w @ es \<and>
               list_all (\<lambda>e. \<not> is_Invoke e) es"
    unfolding n using t by blast
qed

text \<open>The example constructor, made by \<open>into\<close>: \<open>new f(O)\<close> returns the function at
  address 5 after rule evaluation and finalize only, and both ways of calling give 18 for
  the argument 3.\<close>

theorem dual_invocation_witness:
  "is_object (Obj 100) \<and> getOwner env_dev (Obj 100) = Inr (Obj 7) \<and> truthy (Obj 7) \<and>
   c_finalize demo_ctor = Into f_body \<and>
   ctor_new env_dev demo_ctor [Obj 7] demo_world = (Inr (Fun 5), demo_cached) \<and>
   trace demo_cached = trace demo_world @ [RulesRun 3 (Obj 7), FinalizeRun 3 (Obj 7)] \<and>
   (\<exists>es. trace demo_cached = trace demo_world @ es \<and> list_all (\<lambda>e. \<not> is_Invoke e) es) \<and>
   ctor_call env_dev demo_ctor (Obj 100) [Num 3] demo_cached =
     invoke env_dev (Fun 5) [Num 3] demo_cached \<and>
   fst (invoke env_dev (Fun 5) [Num 3] demo_cached) = Inr (Num 18) \<and>
   fst (ctor_call env_dev demo_ctor (Obj 100) [Num 3] demo_world) = Inr (Num 18)"
proof -
  have h: "is_object (Obj 100)" "getOwner env_dev (Obj 100) = Inr (Obj 7)" "truthy (Obj 7)"
    by (simp_all add: env_dev_def)
  note t = dual_invocation [OF h, of demo_ctor "[]" demo_world "[Num 3]"]
  have 1: "ctor_call env_dev demo_ctor (Obj 100) [Num 3] demo_cached =
     invoke env_dev (Fun 5) [Num 3] demo_cached"
    using t demo_new by blast
  have 2: "fst (invoke env_dev (Fun 5) [Num 3] demo_cached) = Inr (Num 18)"
    by (simp add: eval_defs numeral_nat)
  have 3: "ctor_call env_dev demo_ctor (Obj 100) [Num 3] demo_world =
      invoke env_dev (Fun 5) [Num 3] demo_cached"
    using t demo_new by simp
  have 4: "trace demo_cached = trace demo_world @ [RulesRun 3 (Obj 7), FinalizeRun 3 (Obj 7)]"
    by (simp add: eval_defs)
  have 5: "c_finalize demo_ctor = Into f_body" by (simp add: demo_ctor_def)
  have "\<exists>es. trace (snd (ctor_new env_dev demo_ctor [Obj 7] demo_world)) = trace demo_world @ es \<and>
      list_all (\<lambda>e. \<not> is_Invoke e) es"
    using t 5 by blast
  then have 6: "\<exists>es. trace demo_cached = trace demo_world @ es \<and> list_all (\<lambda>e. \<not> is_Invoke e) es"
    by (simp add: demo_new)
  show ?thesis using h demo_new 1 2 3 4 5 6 by simp
qed

text \<open>
  The second part is stated for \<open>into\<close> because the callback of a \<open>build\<close>
  constructor may call functions while the constructor is instantiated: the callback
  \<^verbatim>\<open>() => { const g = new f(owner); g(3); return () => 1 }\<close> instantiates the example
  constructor and calls its function, at address 7, before \<^verbatim>\<open>new\<close> returns the function at
  address 8.
\<close>

lemma build_callback_calls:
  "Builder_build False inject [] calling_callback demo_world = (Inr calling_ctor, calling_world) \<and>
   fst (ctor_new env_dev calling_ctor [Obj 7] calling_world) = Inr (Fun 8) \<and>
   trace (snd (ctor_new env_dev calling_ctor [Obj 7] calling_world)) =
     trace calling_world @
       [RulesRun 4 (Obj 7), FinalizeRun 4 (Obj 7), RulesRun 3 (Obj 7), FinalizeRun 3 (Obj 7),
        Invoke 7 [Num 3], LookupCall (Obj 7) (Str ''service:config''),
        CallbackCall ''computedX'' (Obj 7)]"
proof -
  have 1: "fst (Builder_build False inject [] calling_callback demo_world) = Inr calling_ctor"
    by (simp add: eval_defs)
  have 2: "fst (ctor_new env_dev calling_ctor [Obj 7] calling_world) = Inr (Fun 8)"
    by (simp add: eval_defs numeral_nat)
  have 3: "trace (snd (ctor_new env_dev calling_ctor [Obj 7] calling_world)) =
     trace calling_world @
       [RulesRun 4 (Obj 7), FinalizeRun 4 (Obj 7), RulesRun 3 (Obj 7), FinalizeRun 3 (Obj 7),
        Invoke 7 [Num 3], LookupCall (Obj 7) (Str ''service:config''),
        CallbackCall ''computedX'' (Obj 7)]"
    by (simp add: eval_defs numeral_nat)
  show ?thesis using 1 2 3 by (simp add: prod_eq_iff calling_world_def)
qed

subsection \<open>C4: laziness\<close>

text \<open>
  Claim C4, as amended. Building the injections bag invokes no service lookup and no
  property callback, and leaves the getter of every rule unresolved. A read that finds
  the getter of a service rule unresolved invokes the lookup exactly once: when the
  lookup returns, the read returns its value, has added that one lookup to the trace and
  has stored the value; when the lookup throws, the read throws the same, has added that
  one lookup and has stored nothing, so that the getter is unresolved as before. A read
  that finds the getter of a property rule unresolved runs the callback exactly once
  itself, on the bag and the owner: when that run returns, the read returns its value and
  stores it; when it throws, the read throws the same and leaves the state as the run of
  the callback left it. Whatever a read has returned from an unresolved getter of an
  allocated bag, every read of that property in any state reached from there returns,
  and leaves the state as it is, so that neither lookup nor callback is invoked again.
  (A read made by the callback of the property itself is followed by the rest of the
  read that runs the callback, not by a step: see the second run below.)
\<close>

theorem laziness:
  "trace (snd (Builder_getInjections pol rs owner w)) = trace w \<and>
   (distinct (map rule_name rs) \<longrightarrow>
      (\<exists>a ob w1. Builder_getInjections pol rs owner w = (Inr (Obj a), w1) \<and>
         objects w1 a = Some ob \<and>
         (\<forall>r \<in> set rs. props ob (rule_name r) = Some (rule_slot r owner)))) \<and>
   (\<forall>a ob p tok n.
      objects w a = Some ob \<and> props ob p = Some (ServiceSlot owner tok None) \<longrightarrow>
        (\<forall>v w1. read env (Suc n) (Obj a) p w = (Inr v, w1) \<longrightarrow>
           lookup env owner tok = Inr v \<and> trace w1 = trace w @ [LookupCall owner tok] \<and>
           (\<forall>w2 env' m. a < nxt w \<and> rtranclp step w1 w2 \<longrightarrow>
              read env' (Suc m) (Obj a) p w2 = (Inr v, w2))) \<and>
        (\<forall>e w1. read env (Suc n) (Obj a) p w = (Inl e, w1) \<longrightarrow>
           lookup env owner tok = Inl e \<and> w1 = log (LookupCall owner tok) w)) \<and>
   (\<forall>a ob p cb n.
      objects w a = Some ob \<and> props ob p = Some (PropertySlot owner cb None) \<longrightarrow>
        (\<forall>v w1. read env (Suc n) (Obj a) p w = (Inr v, w1) \<longrightarrow>
           (\<exists>w'. exec (perform env n) (Obj a) (cb owner) (log (CallbackCall p owner) w) = (Inr v, w') \<and>
                 w1 = put_slot a p (PropertySlot owner cb (Some v)) w') \<and>
           (\<forall>w2 env' m. a < nxt w \<and> rtranclp step w1 w2 \<longrightarrow>
              read env' (Suc m) (Obj a) p w2 = (Inr v, w2))) \<and>
        (\<forall>e w1. read env (Suc n) (Obj a) p w = (Inl e, w1) \<longrightarrow>
           exec (perform env n) (Obj a) (cb owner) (log (CallbackCall p owner) w) = (Inl e, w1)))"
proof (intro conjI allI impI)
  show "trace (snd (Builder_getInjections pol rs owner w)) = trace w"
    by (rule Builder_getInjections_trace)
next
  assume d: "distinct (map rule_name rs)"
  let ?M = "map_of (map (\<lambda>r. (rule_name r, rule_slot r owner)) rs)"
  have "\<forall>r \<in> set rs. ?M (rule_name r) = Some (rule_slot r owner)"
  proof
    fix r assume "r \<in> set rs"
    then have "(rule_name r, rule_slot r owner) \<in> set (map (\<lambda>r. (rule_name r, rule_slot r owner)) rs)"
      by auto
    moreover have "distinct (map fst (map (\<lambda>r. (rule_name r, rule_slot r owner)) rs))"
      using d by (simp add: comp_def)
    ultimately show "?M (rule_name r) = Some (rule_slot r owner)" by (rule map_of_is_SomeI [rotated])
  qed
  then show "\<exists>a ob w1. Builder_getInjections pol rs owner w = (Inr (Obj a), w1) \<and>
         objects w1 a = Some ob \<and>
         (\<forall>r \<in> set rs. props ob (rule_name r) = Some (rule_slot r owner))"
    unfolding Builder_getInjections_ok [OF d] by simp
next
  fix a ob p tok n v and w1 :: world
  assume o: "objects w a = Some ob \<and> props ob p = Some (ServiceSlot owner tok None)"
    and r: "read env (Suc n) (Obj a) p w = (Inr v, w1)"
  from first_read_service [of w a ob p owner tok env n v w1] o r
  have l: "lookup env owner tok = Inr v" and t: "trace w1 = trace w @ [LookupCall owner tok]"
    and nx: "nxt w1 = nxt w"
    and s: "\<exists>ob1. objects w1 a = Some ob1 \<and> props ob1 p = Some (ServiceSlot owner tok (Some v))"
    by blast+
  show "lookup env owner tok = Inr v" by (rule l)
  show "trace w1 = trace w @ [LookupCall owner tok]" by (rule t)
  fix w2 :: world and env' :: env and m
  assume h: "a < nxt w \<and> rtranclp step w1 w2"
  from s obtain ob1 where ob1: "objects w1 a = Some ob1"
    "props ob1 p = Some (ServiceSlot owner tok (Some v))" by blast
  show "read env' (Suc m) (Obj a) p w2 = (Inr v, w2)"
    by (rule later_read [OF _ ob1, where owner = owner and tok = tok and v = v])
       (use h nx in simp_all)
next
  fix a ob p tok n e and w1 :: world
  assume o: "objects w a = Some ob \<and> props ob p = Some (ServiceSlot owner tok None)"
    and r: "read env (Suc n) (Obj a) p w = (Inl e, w1)"
  from failed_read_service [of w a ob p owner tok env n e w1] o r
  show "lookup env owner tok = Inl e" and "w1 = log (LookupCall owner tok) w" by blast+
next
  fix a ob p cb n v and w1 :: world
  assume o: "objects w a = Some ob \<and> props ob p = Some (PropertySlot owner cb None)"
    and r: "read env (Suc n) (Obj a) p w = (Inr v, w1)"
  from first_read_property [of w a ob p owner cb env n v w1] o r
  have x: "\<exists>w'. exec (perform env n) (Obj a) (cb owner) (log (CallbackCall p owner) w) = (Inr v, w') \<and>
            w1 = put_slot a p (PropertySlot owner cb (Some v)) w'"
    and s: "a < nxt w \<longrightarrow> a < nxt w1 \<and>
            (\<exists>ob1. objects w1 a = Some ob1 \<and> props ob1 p = Some (PropertySlot owner cb (Some v)))"
    by blast+
  show "\<exists>w'. exec (perform env n) (Obj a) (cb owner) (log (CallbackCall p owner) w) = (Inr v, w') \<and>
            w1 = put_slot a p (PropertySlot owner cb (Some v)) w'" by (rule x)
  fix w2 :: world and env' :: env and m
  assume h: "a < nxt w \<and> rtranclp step w1 w2"
  with s obtain ob1 where a1: "a < nxt w1" and ob1: "objects w1 a = Some ob1"
    "props ob1 p = Some (PropertySlot owner cb (Some v))" by blast
  show "read env' (Suc m) (Obj a) p w2 = (Inr v, w2)"
    by (rule later_read [OF a1 ob1, where owner = owner and cb = cb and v = v])
       (use h in simp_all)
next
  fix a ob p cb n e and w1 :: world
  assume o: "objects w a = Some ob \<and> props ob p = Some (PropertySlot owner cb None)"
    and r: "read env (Suc n) (Obj a) p w = (Inl e, w1)"
  from failed_read_property [of w a ob p owner cb env n e w1] o r
  show "exec (perform env n) (Obj a) (cb owner) (log (CallbackCall p owner) w) = (Inl e, w1)"
    by blast
qed

text \<open>The bag of the example constructor: both getters unresolved after the build; one
  lookup at the first read of \<^verbatim>\<open>config\<close> and one callback at the first read of
  \<^verbatim>\<open>computedX\<close>, none at a second read, also after the constructor has been
  instantiated in between; a lookup that throws; and a property callback that throws.\<close>

theorem laziness_witness:
  "distinct (map rule_name (c_properties demo_ctor)) \<and>
   trace (snd (Builder_getInjections False (c_properties demo_ctor) (Obj 7) demo_world)) =
     trace demo_world \<and>
   4 < nxt demo_bag \<and>
   (\<exists>ob. objects demo_bag 4 = Some ob \<and>
      props ob ''config'' = Some (ServiceSlot (Obj 7) (Str ''service:config'') None) \<and>
      props ob ''computedX'' = Some (PropertySlot (Obj 7) five None)) \<and>
   fst (read env_dev 1 (Obj 4) ''config'' demo_bag) = Inr (Rec [(''value'', Num 10)]) \<and>
   trace (snd (read env_dev 1 (Obj 4) ''config'' demo_bag)) =
     trace demo_bag @ [LookupCall (Obj 7) (Str ''service:config'')] \<and>
   read env_dev 1 (Obj 4) ''config'' (snd (read env_dev 1 (Obj 4) ''config'' demo_bag)) =
     (Inr (Rec [(''value'', Num 10)]), snd (read env_dev 1 (Obj 4) ''config'' demo_bag)) \<and>
   fst (read env_dev 1 (Obj 4) ''computedX'' demo_bag) = Inr (Num 5) \<and>
   trace (snd (read env_dev 1 (Obj 4) ''computedX'' demo_bag)) =
     trace demo_bag @ [CallbackCall ''computedX'' (Obj 7)] \<and>
   read env_dev 1 (Obj 4) ''computedX''
       (snd (ctor_new env_dev demo_ctor [Obj 7] (snd (read env_dev 1 (Obj 4) ''computedX'' demo_bag)))) =
     (Inr (Num 5),
      snd (ctor_new env_dev demo_ctor [Obj 7] (snd (read env_dev 1 (Obj 4) ''computedX'' demo_bag)))) \<and>
   (\<exists>ob. objects miss_bag 3 = Some ob \<and>
      props ob ''missing'' = Some (ServiceSlot (Obj 7) (Str ''service:missing'') None)) \<and>
   fst miss_read1 = Inl (Thrown (Str ''no such service'')) \<and>
   snd miss_read1 = log (LookupCall (Obj 7) (Str ''service:missing'')) miss_bag \<and>
   (\<exists>ob. objects boom_bag 3 = Some ob \<and> props ob ''q'' = Some (PropertySlot (Obj 7) throwing None)) \<and>
   read env_dev 1 (Obj 3) ''q'' boom_bag =
     (Inl (Thrown (Str ''boom'')), log (CallbackCall ''q'' (Obj 7)) boom_bag)"
proof -
  let ?w1 = "snd (read env_dev 1 (Obj 4) ''config'' demo_bag)"
  let ?w2 = "snd (read env_dev 1 (Obj 4) ''computedX'' demo_bag)"
  let ?w3 = "snd (ctor_new env_dev demo_ctor [Obj 7] ?w2)"
  have d: "distinct (map rule_name (c_properties demo_ctor))" by (simp add: demo_ctor_def)
  have nx: "4 < nxt demo_bag" by (simp add: eval_defs)
  have o: "\<exists>ob. objects demo_bag 4 = Some ob \<and>
      props ob ''config'' = Some (ServiceSlot (Obj 7) (Str ''service:config'') None) \<and>
      props ob ''computedX'' = Some (PropertySlot (Obj 7) five None)"
    by (simp add: eval_defs)
  then obtain ob where ob: "objects demo_bag 4 = Some ob"
    "props ob ''config'' = Some (ServiceSlot (Obj 7) (Str ''service:config'') None)"
    "props ob ''computedX'' = Some (PropertySlot (Obj 7) five None)" by blast
  have r1: "fst (read env_dev 1 (Obj 4) ''config'' demo_bag) = Inr (Rec [(''value'', Num 10)])"
    using ob by (simp add: read_def read_with_def env_dev_def)
  have r2: "fst (read env_dev 1 (Obj 4) ''computedX'' demo_bag) = Inr (Num 5)"
    using ob by (simp add: read_def read_with_def five_def)
  have t2: "trace ?w2 = trace demo_bag @ [CallbackCall ''computedX'' (Obj 7)]"
    using ob by (simp add: read_def read_with_def five_def put_slot_def log_def)
  have e1: "read env_dev (Suc 0) (Obj 4) ''config'' demo_bag = (Inr (Rec [(''value'', Num 10)]), ?w1)"
    using r1 by (simp add: prod_eq_iff)
  have e2: "read env_dev (Suc 0) (Obj 4) ''computedX'' demo_bag = (Inr (Num 5), ?w2)"
    using r2 by (simp add: prod_eq_iff)
  have s0: "rtranclp step ?w1 ?w1" by simp
  have s1: "rtranclp step ?w2 ?w3" by (rule r_into_rtranclp) (rule step_new)
  note t = laziness [of False "c_properties demo_ctor" "Obj 7" demo_bag env_dev]
  note t0 = laziness [of False "c_properties demo_ctor" "Obj 7" demo_world env_dev]
  note tm = laziness [of False "c_properties miss_ctor" "Obj 7" miss_bag env_dev]
  have s: "trace ?w1 = trace demo_bag @ [LookupCall (Obj 7) (Str ''service:config'')] \<and>
      read env_dev (Suc 0) (Obj 4) ''config'' ?w1 = (Inr (Rec [(''value'', Num 10)]), ?w1)"
    using t ob(1,2) e1 nx s0 by blast
  have p: "read env_dev (Suc 0) (Obj 4) ''computedX'' ?w3 = (Inr (Num 5), ?w3)"
    using t ob(1,3) e2 nx s1 by blast
  have b: "trace (snd (Builder_getInjections False (c_properties demo_ctor) (Obj 7) demo_world)) =
     trace demo_world" using t0 by blast
  have mo: "\<exists>ob. objects miss_bag 3 = Some ob \<and>
      props ob ''missing'' = Some (ServiceSlot (Obj 7) (Str ''service:missing'') None)"
    by (simp add: eval_defs)
  then obtain mb where mb: "objects miss_bag 3 = Some mb"
    "props mb ''missing'' = Some (ServiceSlot (Obj 7) (Str ''service:missing'') None)" by blast
  have m1: "fst miss_read1 = Inl (Thrown (Str ''no such service''))"
    using mb by (simp add: miss_read1_def read_def read_with_def env_dev_def)
  then have "read env_dev (Suc 0) (Obj 3) ''missing'' miss_bag =
      (Inl (Thrown (Str ''no such service'')), snd miss_read1)"
    by (simp add: prod_eq_iff miss_read1_def)
  then have m2: "snd miss_read1 = log (LookupCall (Obj 7) (Str ''service:missing'')) miss_bag"
    using tm mb by blast
  note tb = laziness [of False "c_properties boom_ctor" "Obj 7" boom_bag env_dev]
  have bo: "\<exists>ob. objects boom_bag 3 = Some ob \<and>
      props ob ''q'' = Some (PropertySlot (Obj 7) throwing None)"
    by (simp add: eval_defs)
  then obtain bb where bb: "objects boom_bag 3 = Some bb"
    "props bb ''q'' = Some (PropertySlot (Obj 7) throwing None)" by blast
  have b1: "fst (read env_dev (Suc 0) (Obj 3) ''q'' boom_bag) = Inl (Thrown (Str ''boom''))"
    using bb by (simp add: read_def read_with_def throwing_def)
  then have "read env_dev (Suc 0) (Obj 3) ''q'' boom_bag =
      (Inl (Thrown (Str ''boom'')), snd (read env_dev (Suc 0) (Obj 3) ''q'' boom_bag))"
    by (simp add: prod_eq_iff)
  moreover have "\<forall>e w1. read env_dev (Suc 0) (Obj 3) ''q'' boom_bag = (Inl e, w1) \<longrightarrow>
      exec (perform env_dev 0) (Obj 3) (throwing (Obj 7)) (log (CallbackCall ''q'' (Obj 7)) boom_bag) =
        (Inl e, w1)"
    using tb bb by fast
  ultimately have "exec (perform env_dev 0) (Obj 3) (throwing (Obj 7))
      (log (CallbackCall ''q'' (Obj 7)) boom_bag) =
      (Inl (Thrown (Str ''boom'')), snd (read env_dev (Suc 0) (Obj 3) ''q'' boom_bag))"
    by blast
  then have b2: "snd (read env_dev (Suc 0) (Obj 3) ''q'' boom_bag) =
      log (CallbackCall ''q'' (Obj 7)) boom_bag"
    by (simp add: throwing_def)
  have b3: "read env_dev 1 (Obj 3) ''q'' boom_bag =
     (Inl (Thrown (Str ''boom'')), log (CallbackCall ''q'' (Obj 7)) boom_bag)"
    using b1 b2 by (simp add: prod_eq_iff)
  show ?thesis using d b nx o r1 r2 t2 s p mo m1 m2 bo b3 by simp
qed

text \<open>
  The claim as stated fails in two ways. When the lookup throws: for
  \<^verbatim>\<open>inject.service('missing').into(h)\<close> and an owner without that service, the first
  read of the property throws, the second read throws again, and the lookup has been
  invoked twice. And when the callback, run first, reads the property it computes: the
  first read of the property \<^verbatim>\<open>p\<close> has invoked the callback twice; the read made by
  the callback, in the state in which the callback has set its flag, returns 1; the
  first read itself and the read after it return 2.
\<close>

theorem laziness_counterexample:
  "Builder_into False 1 ''h'' h_body
      (snd (Builder_service inject ''missing'' None init_world)) = (Inr miss_ctor, miss_world) \<and>
   Storage_getInjections env_dev miss_ctor (Obj 7) miss_world = (Inr (Obj 3), miss_bag) \<and>
   fst miss_read1 = Inl (Thrown (Str ''no such service'')) \<and>
   fst miss_read2 = Inl (Thrown (Str ''no such service'')) \<and>
   trace (snd miss_read2) =
     trace miss_bag @ [LookupCall (Obj 7) (Str ''service:missing''),
                       LookupCall (Obj 7) (Str ''service:missing'')] \<and>
   Builder_into False 2 ''g'' g_body
      (snd (Builder_property inject ''p'' self_reading flag_world)) = (Inr self_ctor, self_world) \<and>
   Storage_getInjections env_dev self_ctor (Obj 7) self_world = (Inr (Obj 4), self_bag) \<and>
   fst self_read = Inr (Num 2) \<and>
   trace (snd self_read) =
     trace self_bag @ [CallbackCall ''p'' (Obj 7), CallbackCall ''p'' (Obj 7)] \<and>
   fst (read env_dev 4 (Obj 4) ''p''
          (snd (assign True (Obj 1) ''entered'' (Bool True)
                 (log (CallbackCall ''p'' (Obj 7)) self_bag)))) = Inr (Num 1) \<and>
   fst (read env_dev (stack env_dev) (Obj 4) ''p'' (snd self_read)) = Inr (Num 2)"
proof -
  have 1: "fst (Builder_into False 1 ''h'' h_body
      (snd (Builder_service inject ''missing'' None init_world))) = Inr miss_ctor"
    by (simp add: eval_defs)
  have 2: "fst (Storage_getInjections env_dev miss_ctor (Obj 7) miss_world) = Inr (Obj 3)"
    by (simp add: eval_defs)
  have 3: "fst miss_read1 = Inl (Thrown (Str ''no such service''))"
    by (simp add: eval_defs)
  have 4: "fst miss_read2 = Inl (Thrown (Str ''no such service''))"
    by (simp add: eval_defs)
  have 5: "trace (snd miss_read2) =
     trace miss_bag @ [LookupCall (Obj 7) (Str ''service:missing''),
                       LookupCall (Obj 7) (Str ''service:missing'')]"
    by (simp add: eval_defs)
  have 6: "fst (Builder_into False 2 ''g'' g_body
      (snd (Builder_property inject ''p'' self_reading flag_world))) = Inr self_ctor"
    by (simp add: eval_defs)
  have 7: "fst (Storage_getInjections env_dev self_ctor (Obj 7) self_world) = Inr (Obj 4)"
    by (simp add: eval_defs)
  have 8: "fst self_read = Inr (Num 2)"
    by (simp add: eval_defs numeral_nat)
  have 9: "trace (snd self_read) =
     trace self_bag @ [CallbackCall ''p'' (Obj 7), CallbackCall ''p'' (Obj 7)]"
    by (simp add: eval_defs numeral_nat)
  have 10: "fst (read env_dev (stack env_dev) (Obj 4) ''p'' (snd self_read)) = Inr (Num 2)"
    by (simp add: eval_defs numeral_nat)
  have 11: "fst (read env_dev 4 (Obj 4) ''p''
          (snd (assign True (Obj 1) ''entered'' (Bool True)
                 (log (CallbackCall ''p'' (Obj 7)) self_bag)))) = Inr (Num 1)"
    by (simp add: eval_defs numeral_nat)
  show ?thesis using 1 2 3 4 5 6 7 8 9 10 11
    by (simp add: prod_eq_iff miss_world_def miss_bag_def self_world_def self_bag_def)
qed

subsection \<open>C5: direct-call precondition\<close>

text \<open>
  Claim C5, as amended. In a development build, a constructor whose function has a
  name, called as a plain function, fails with an assertion when the receiver is not an
  object and when the owner resolution returns nothing truthy for it. In every build,
  when an owner is resolved (and, in that guarded variant, the receiver is an object),
  the call obtains the injected function for the owner, calls it with all the arguments
  and returns its result. In a production build, and for a function without a name, the
  constructor makes no check of its own: the receiver goes to the owner resolution as it
  is. A call for which the owner resolution returns what cannot key a weak map
  (\<^verbatim>\<open>undefined\<close> in particular) still aborts in every build.
\<close>

theorem direct_call_precondition:
  "(isDevelopingApp env \<and> c_name ct \<noteq> [] \<and> \<not> is_object this \<longrightarrow>
      ctor_call env ct this args w = (Inl (AssertionFailed (msg_no_context (c_name ct))), w)) \<and>
   (isDevelopingApp env \<and> c_name ct \<noteq> [] \<and> is_object this \<and> getOwner env this = Inr owner \<and>
      \<not> truthy owner \<longrightarrow>
      ctor_call env ct this args w = (Inl (AssertionFailed (msg_bad_context (c_name ct))), w)) \<and>
   (getOwner env this = Inr owner \<and> truthy owner \<and>
      (isDevelopingApp env \<and> c_name ct \<noteq> [] \<longrightarrow> is_object this) \<longrightarrow>
      ctor_call env ct this args w =
        (case Storage_getInjected env ct owner w of
           (Inl e, w1) \<Rightarrow> (Inl e, w1)
         | (Inr f, w1) \<Rightarrow> invoke env f args w1)) \<and>
   (getOwner env this = Inr owner \<and> \<not> is_weak_key owner \<longrightarrow>
      (\<exists>e. fst (ctor_call env ct this args w) = Inl e))"
proof (intro conjI impI)
  assume "isDevelopingApp env \<and> c_name ct \<noteq> [] \<and> \<not> is_object this"
  then show "ctor_call env ct this args w = (Inl (AssertionFailed (msg_no_context (c_name ct))), w)"
    by (simp add: ctor_call_eq call_checked_eq assert_def)
next
  assume "isDevelopingApp env \<and> c_name ct \<noteq> [] \<and> is_object this \<and> getOwner env this = Inr owner \<and>
      \<not> truthy owner"
  then show "ctor_call env ct this args w = (Inl (AssertionFailed (msg_bad_context (c_name ct))), w)"
    by (simp add: ctor_call_eq call_checked_eq assert_def)
next
  assume "getOwner env this = Inr owner \<and> truthy owner \<and>
      (isDevelopingApp env \<and> c_name ct \<noteq> [] \<longrightarrow> is_object this)"
  then show "ctor_call env ct this args w =
        (case Storage_getInjected env ct owner w of
           (Inl e, w1) \<Rightarrow> (Inl e, w1)
         | (Inr f, w1) \<Rightarrow> invoke env f args w1)"
    by (auto simp: ctor_call_eq call_checked_eq call_unchecked_eq assert_def)
next
  assume u: "getOwner env this = Inr owner \<and> \<not> is_weak_key owner"
  have key: "\<And>f w1. Storage_getInjected env ct owner w \<noteq> (Inr f, w1)"
  proof
    fix f w1 assume "Storage_getInjected env ct owner w = (Inr f, w1)"
    from getInjected_stored [OF this] u show False by simp
  qed
  obtain r w1 where g: "Storage_getInjected env ct owner w = (r, w1)"
    by (cases "Storage_getInjected env ct owner w")
  with key obtain e where "r = Inl e" by (cases r) auto
  then show "\<exists>e. fst (ctor_call env ct this args w) = Inl e"
    using u g by (auto simp: ctor_call_eq call_checked_eq call_unchecked_eq assert_def)
qed

text \<open>The example constructor \<open>f\<close> in the development build: a number as receiver, an
  object without owner, the object that carries the owner; and the constructor without a
  name on the object without owner.\<close>

theorem direct_call_precondition_witness:
  "isDevelopingApp env_dev \<and> c_name demo_ctor \<noteq> [] \<and> \<not> is_object (Num 1) \<and>
   ctor_call env_dev demo_ctor (Num 1) [Num 3] demo_world =
     (Inl (AssertionFailed (msg_no_context ''f'')), demo_world) \<and>
   is_object (Obj 101) \<and> getOwner env_dev (Obj 101) = Inr Undefined \<and> \<not> truthy Undefined \<and>
   ctor_call env_dev demo_ctor (Obj 101) [Num 3] demo_world =
     (Inl (AssertionFailed (msg_bad_context ''f'')), demo_world) \<and>
   is_object (Obj 100) \<and> getOwner env_dev (Obj 100) = Inr (Obj 7) \<and> truthy (Obj 7) \<and>
   ctor_call env_dev demo_ctor (Obj 100) [Num 3] demo_world =
     invoke env_dev (Fun 5) [Num 3] demo_cached \<and>
   fst (ctor_call env_dev demo_ctor (Obj 100) [Num 3] demo_world) = Inr (Num 18) \<and>
   (\<exists>e. fst (ctor_call env_dev anon_ctor (Obj 101) [Num 3] anon_world) = Inl e)"
proof -
  have h: "isDevelopingApp env_dev" "c_name demo_ctor \<noteq> []" "\<not> is_object (Num 1)"
    "is_object (Obj 101)" "getOwner env_dev (Obj 101) = Inr Undefined" "\<not> truthy Undefined"
    "is_object (Obj 100)" "getOwner env_dev (Obj 100) = Inr (Obj 7)" "truthy (Obj 7)"
    "c_name demo_ctor = ''f''"
    by (simp_all add: env_dev_def demo_ctor_def)
  have g: "Storage_getInjected env_dev demo_ctor (Obj 7) demo_world = (Inr (Fun 5), demo_cached)"
    using demo_new by (simp add: ctor_new_eq first_arg_def)
  have 1: "ctor_call env_dev demo_ctor (Num 1) [Num 3] demo_world =
     (Inl (AssertionFailed (msg_no_context ''f'')), demo_world)"
    using direct_call_precondition [of env_dev demo_ctor "Num 1" "[Num 3]" demo_world] h by simp
  have 2: "ctor_call env_dev demo_ctor (Obj 101) [Num 3] demo_world =
     (Inl (AssertionFailed (msg_bad_context ''f'')), demo_world)"
    using direct_call_precondition [of env_dev demo_ctor "Obj 101" "[Num 3]" demo_world Undefined] h
    by simp
  have 3: "ctor_call env_dev demo_ctor (Obj 100) [Num 3] demo_world =
     invoke env_dev (Fun 5) [Num 3] demo_cached"
    using direct_call_precondition [of env_dev demo_ctor "Obj 100" "[Num 3]" demo_world "Obj 7"] h g
    by simp
  have 4: "fst (invoke env_dev (Fun 5) [Num 3] demo_cached) = Inr (Num 18)"
    by (simp add: eval_defs numeral_nat)
  have 5: "\<exists>e. fst (ctor_call env_dev anon_ctor (Obj 101) [Num 3] anon_world) = Inl e"
    using direct_call_precondition [of env_dev anon_ctor "Obj 101" "[Num 3]" anon_world Undefined] h
    by simp
  show ?thesis using h 1 2 3 4 5 by simp
qed

text \<open>
  The claim as stated fails where the constructor has no guard. In a production build
  the constructor \<open>f\<close>, called on the number 5 with an owner resolution that resolves an
  owner from it, returns 18: no abort. In a development build the constructor of
  \<^verbatim>\<open>inject.build(() => () => 1)\<close> has no name and does the same. Called on an object
  without owner, that constructor does fail, but not by an assertion: rule evaluation
  runs for the owner \<^verbatim>\<open>undefined\<close>, and the weak map then refuses the key.
\<close>

theorem direct_call_precondition_counterexample:
  "\<not> isDevelopingApp env_prod \<and> \<not> is_object (Num 5) \<and>
   fst (ctor_call env_prod demo_ctor (Num 5) [Num 3] demo_world) = Inr (Num 18) \<and>
   isDevelopingApp env_any \<and> c_name anon_ctor = [] \<and>
   Builder_build False inject [] one_callback init_world = (Inr anon_ctor, anon_world) \<and>
   fst (ctor_call env_any anon_ctor (Num 5) [Num 3] anon_world) = Inr (Num 1) \<and>
   isDevelopingApp env_dev \<and> getOwner env_dev (Obj 101) = Inr Undefined \<and>
   fst (ctor_call env_dev anon_ctor (Obj 101) [Num 3] anon_world) =
     Inl (TypeError ''Invalid value used as weak map key'') \<and>
   trace (snd (ctor_call env_dev anon_ctor (Obj 101) [Num 3] anon_world)) =
     trace anon_world @ [RulesRun (cid anon_ctor) Undefined]"
proof -
  have 1: "\<not> isDevelopingApp env_prod \<and> \<not> is_object (Num 5) \<and> isDevelopingApp env_any \<and>
      c_name anon_ctor = [] \<and> isDevelopingApp env_dev \<and> getOwner env_dev (Obj 101) = Inr Undefined"
    by (simp add: env_prod_def env_any_def env_dev_def anon_ctor_def)
  have 2: "fst (ctor_call env_prod demo_ctor (Num 5) [Num 3] demo_world) = Inr (Num 18)"
    by (simp add: eval_defs numeral_nat)
  have 3: "fst (Builder_build False inject [] one_callback init_world) = Inr anon_ctor"
    by (simp add: eval_defs)
  have 4: "fst (ctor_call env_any anon_ctor (Num 5) [Num 3] anon_world) = Inr (Num 1)"
    by (simp add: eval_defs numeral_nat)
  have 5: "fst (ctor_call env_dev anon_ctor (Obj 101) [Num 3] anon_world) =
     Inl (TypeError ''Invalid value used as weak map key'')"
    by (simp add: eval_defs numeral_nat)
  have 6: "trace (snd (ctor_call env_dev anon_ctor (Obj 101) [Num 3] anon_world)) =
     trace anon_world @ [RulesRun (cid anon_ctor) Undefined]"
    by (simp add: eval_defs numeral_nat)
  show ?thesis using 1 2 3 4 5 6 by (simp add: prod_eq_iff anon_world_def)
qed

subsection \<open>C6: named-argument elision\<close>

text \<open>
  Claim C6. For every helper-manager state, \<open>getValue\<close> calls the function with exactly
  the positional arguments when the named mapping has no keys, and with the positional
  arguments followed by the named mapping as one more argument when it has a key; what
  the function gives is what \<open>getValue\<close> gives.
\<close>

theorem named_argument_elision:
  "getValue env \<lparr>st_fn = f, st_args = \<lparr>positional = ps, named = kvs\<rparr>\<rparr> w =
     (if Object_keys kvs = [] then invoke env f ps w else invoke env f (ps @ [Rec kvs]) w)"
  by (simp add: getValue_def)

text \<open>The injected function of the example, with \<^verbatim>\<open>{}\<close> and with \<^verbatim>\<open>{opt: 1}\<close>.\<close>

theorem named_argument_elision_witness:
  "getValue env_dev \<lparr>st_fn = Fun 5, st_args = \<lparr>positional = [Num 3], named = []\<rparr>\<rparr> demo_cached =
     invoke env_dev (Fun 5) [Num 3] demo_cached \<and>
   getValue env_dev \<lparr>st_fn = Fun 5, st_args = \<lparr>positional = [Num 3], named = [(''opt'', Num 1)]\<rparr>\<rparr>
       demo_cached =
     invoke env_dev (Fun 5) [Num 3, Rec [(''opt'', Num 1)]] demo_cached"
  using named_argument_elision [of env_dev "Fun 5" "[Num 3]" "[]" demo_cached]
    named_argument_elision [of env_dev "Fun 5" "[Num 3]" "[(''opt'', Num 1)]" demo_cached]
  by (simp add: Object_keys_def)

subsection \<open>C7: builder non-mutation\<close>

text \<open>
  Claim C7. For an allocated builder \<open>b\<close> with rules \<open>ps\<close> (in a reachable state
  every builder is allocated: lemma \<open>reachable_invariant\<close>), each of \<open>owner\<close>,
  \<open>scope\<close>, \<open>service\<close> (of either module) and \<open>property\<close> returns a new builder,
  different from \<open>b\<close>, whose rules are \<open>ps\<close> with one rule appended, and \<open>b\<close> still
  holds \<open>ps\<close>. So when one chain is derived from \<open>b\<close> and finalized and then a second
  chain is derived from \<open>b\<close> and finalized, the first constructor has \<open>ps\<close> and the rule
  of the first chain, the second \<open>ps\<close> and the rule of the second chain
  (\<open>Builder_chain\<close> is what each of the five methods does with its rule).
\<close>

theorem builder_non_mutation:
  assumes b: "builders w b = Some ps" and alloc: "b < nxt w"
  shows
   "(\<exists>b' w'. Builder_owner b w = (Inr b', w') \<and> b' \<noteq> b \<and>
        builders w' b' = Some (ps @ [OwnerRule ''owner'']) \<and> builders w' b = Some ps) \<and>
    (\<exists>b' w'. Builder_scope b w = (Inr b', w') \<and> b' \<noteq> b \<and>
        builders w' b' = Some (ps @ [OwnerRule ''scope'']) \<and> builders w' b = Some ps) \<and>
    (\<forall>p sn. \<exists>b' w'. Builder_service b p sn w = (Inr b', w') \<and> b' \<noteq> b \<and>
        builders w' b' =
          Some (ps @ [ServiceRule p (Str (''service:'' @ (case sn of None \<Rightarrow> p | Some s \<Rightarrow> s)))]) \<and>
        builders w' b = Some ps) \<and>
    (\<forall>p factory. \<exists>b' w'. Builder_service_polaris b p factory w = (Inr b', w') \<and> b' \<noteq> b \<and>
        builders w' b' = Some (ps @ [ServiceRule p factory]) \<and> builders w' b = Some ps) \<and>
    (\<forall>p cb. \<exists>b' w'. Builder_property b p cb w = (Inr b', w') \<and> b' \<noteq> b \<and>
        builders w' b' = Some (ps @ [PropertyRule p cb]) \<and> builders w' b = Some ps) \<and>
    (\<forall>r1 r2 pol n1 f1 n2 f2. \<exists>b1 w1 c1 w2 b2 w3 c2 w4.
        Builder_chain b r1 w = (Inr b1, w1) \<and> Builder_into pol b1 n1 f1 w1 = (Inr c1, w2) \<and>
        Builder_chain b r2 w2 = (Inr b2, w3) \<and> Builder_build pol b2 n2 f2 w3 = (Inr c2, w4) \<and>
        c_properties c1 = ps @ [r1] \<and> c_properties c2 = ps @ [r2] \<and> builders w4 b = Some ps)"
proof -
  have ch: "\<And>r. \<exists>b' w'. Builder_chain b r w = (Inr b', w') \<and> b' \<noteq> b \<and>
            builders w' b' = Some (ps @ [r]) \<and> builders w' b = Some ps"
  proof -
    fix r
    let ?w' = "w\<lparr>nxt := Suc (nxt w), builders := (builders w)(nxt w \<mapsto> ps @ [r])\<rparr>"
    have "Builder_chain b r w = (Inr (nxt w), ?w')" by (rule Builder_chain_eq [OF b])
    moreover have "nxt w \<noteq> b" using alloc by simp
    moreover have "builders ?w' (nxt w) = Some (ps @ [r])" by simp
    moreover have "builders ?w' b = Some ps" using b alloc by simp
    ultimately show "\<exists>b' w'. Builder_chain b r w = (Inr b', w') \<and> b' \<noteq> b \<and>
            builders w' b' = Some (ps @ [r]) \<and> builders w' b = Some ps" by blast
  qed
  have two: "\<And>r1 r2 pol n1 f1 n2 f2. \<exists>b1 w1 c1 w2 b2 w3 c2 w4.
        Builder_chain b r1 w = (Inr b1, w1) \<and> Builder_into pol b1 n1 f1 w1 = (Inr c1, w2) \<and>
        Builder_chain b r2 w2 = (Inr b2, w3) \<and> Builder_build pol b2 n2 f2 w3 = (Inr c2, w4) \<and>
        c_properties c1 = ps @ [r1] \<and> c_properties c2 = ps @ [r2] \<and> builders w4 b = Some ps"
  proof -
    fix r1 r2 pol n1 f1 n2 f2
    let ?w1 = "w\<lparr>nxt := Suc (nxt w), builders := (builders w)(nxt w \<mapsto> ps @ [r1])\<rparr>"
    have 1: "Builder_chain b r1 w = (Inr (nxt w), ?w1)" by (rule Builder_chain_eq [OF b])
    have b1: "builders ?w1 (nxt w) = Some (ps @ [r1])" by simp
    note 2 = Builder_into_eq [OF b1, of pol n1 f1]
    let ?w2 = "?w1\<lparr>nxt := Suc (nxt ?w1),
          constructors := (constructors ?w1)(nxt ?w1 \<mapsto>
            \<lparr>cid = nxt ?w1, c_polaris = pol, c_properties = ps @ [r1], c_finalize = Into f1,
             c_name = n1\<rparr>),
          STORAGE := insert (nxt ?w1) (STORAGE ?w1),
          INJECTABLE := insert (nxt ?w1) (INJECTABLE ?w1), managers := insert (nxt ?w1) (managers ?w1)\<rparr>"
    have b2: "builders ?w2 b = Some ps" using b alloc by simp
    note 3 = Builder_chain_eq [OF b2, of r2]
    let ?w3 = "?w2\<lparr>nxt := Suc (nxt ?w2), builders := (builders ?w2)(nxt ?w2 \<mapsto> ps @ [r2])\<rparr>"
    have b3: "builders ?w3 (nxt ?w2) = Some (ps @ [r2])" by simp
    note 4 = Builder_build_eq [OF b3, of pol n2 f2]
    let ?w4 = "?w3\<lparr>nxt := Suc (nxt ?w3),
          constructors := (constructors ?w3)(nxt ?w3 \<mapsto>
            \<lparr>cid = nxt ?w3, c_polaris = pol, c_properties = ps @ [r2], c_finalize = Build f2,
             c_name = n2\<rparr>),
          STORAGE := insert (nxt ?w3) (STORAGE ?w3),
          INJECTABLE := insert (nxt ?w3) (INJECTABLE ?w3), managers := insert (nxt ?w3) (managers ?w3)\<rparr>"
    have b4: "builders ?w4 b = Some ps" using b alloc by simp
    show "\<exists>b1 w1 c1 w2 b2 w3 c2 w4.
        Builder_chain b r1 w = (Inr b1, w1) \<and> Builder_into pol b1 n1 f1 w1 = (Inr c1, w2) \<and>
        Builder_chain b r2 w2 = (Inr b2, w3) \<and> Builder_build pol b2 n2 f2 w3 = (Inr c2, w4) \<and>
        c_properties c1 = ps @ [r1] \<and> c_properties c2 = ps @ [r2] \<and> builders w4 b = Some ps"
      apply (rule exI [of _ "nxt w"], rule exI [of _ ?w1])
      apply (rule exI, rule exI [of _ ?w2])
      apply (rule exI [of _ "nxt ?w2"], rule exI [of _ ?w3])
      apply (rule exI, rule exI [of _ ?w4])
      apply (intro conjI)
            apply (rule 1)
           apply (rule 2)
          apply (rule 3)
         apply (rule 4)
        apply simp
       apply simp
      apply (rule b4)
      done
  qed
  show ?thesis
    unfolding Builder_owner_def Builder_scope_def Builder_service_def Builder_service_polaris_def
      Builder_property_def
    using ch two by blast
qed

text \<open>The default builder of the module, which holds no rule.\<close>

theorem builder_non_mutation_witness:
  "builders init_world inject = Some [] \<and> inject < nxt init_world \<and>
   (\<exists>b' w'. Builder_owner inject init_world = (Inr b', w') \<and> b' \<noteq> inject \<and>
      builders w' b' = Some ([] @ [OwnerRule ''owner'']) \<and> builders w' inject = Some []) \<and>
   (\<exists>b' w'. Builder_service inject ''config'' None init_world = (Inr b', w') \<and> b' \<noteq> inject \<and>
      builders w' b' = Some ([] @ [ServiceRule ''config'' (Str ''service:config'')]) \<and>
      builders w' inject = Some [])"
proof -
  have h: "builders init_world inject = Some []" "inject < nxt init_world"
    by (simp_all add: init_world_def inject_def new_Builder_def empty_world_def)
  note t = builder_non_mutation [OF h]
  have 1: "\<exists>b' w'. Builder_owner inject init_world = (Inr b', w') \<and> b' \<noteq> inject \<and>
      builders w' b' = Some ([] @ [OwnerRule ''owner'']) \<and> builders w' inject = Some []"
    using t by blast
  have "\<exists>b' w'. Builder_service inject ''config'' None init_world = (Inr b', w') \<and> b' \<noteq> inject \<and>
      builders w' b' =
        Some ([] @ [ServiceRule ''config''
           (Str (''service:'' @ (case None of None \<Rightarrow> ''config'' | Some s \<Rightarrow> s)))]) \<and>
      builders w' inject = Some []"
    using t by blast
  then have 2: "\<exists>b' w'. Builder_service inject ''config'' None init_world = (Inr b', w') \<and> b' \<noteq> inject \<and>
      builders w' b' = Some ([] @ [ServiceRule ''config'' (Str ''service:config'')]) \<and>
      builders w' inject = Some []"
    by simp
  show ?thesis using h 1 2 by blast
qed

subsection \<open>C8: immutability of the bag\<close>

text \<open>
  Claim C8. In a state that satisfies the invariant of the two weak maps (every
  reachable state does: lemma \<open>reachable_invariant\<close>), the injections bag
  \<open>getInjections\<close> returns, newly built or cached, is a frozen object. An assignment to
  any of its properties, present or new, throws in strict code and does nothing in
  sloppy code, and \<^verbatim>\<open>Object.defineProperty\<close> on it throws; each leaves the whole state,
  and so every getter of the bag, as it was.
\<close>

theorem bag_immutable:
  assumes wf: "wf_world w" and g: "Storage_getInjections env ct owner w = (Inr b, w1)"
  shows "\<exists>a ob. b = Obj a \<and> objects w1 a = Some ob \<and> frozen ob \<and>
           (\<forall>strict p v. assign strict b p v w1 =
              (if strict then Inl (TypeError (''Cannot assign to read only property '' @ p))
               else Inr (), w1)) \<and>
           (\<forall>p s. \<exists>m. Object_defineProperty a p s w1 = (Inl (TypeError m), w1))"
proof -
  have wf1: "wf_world w1" using Storage_getInjections_wf [OF wf, of env ct owner] g by simp
  from getInjections_stored [OF g] have "injections w1 (cid ct, owner) = Some b" by simp
  with wf1 obtain a ob where a: "b = Obj a" "objects w1 a = Some ob" "frozen ob"
    unfolding wf_world_def by blast
  have "\<forall>strict p v. assign strict b p v w1 =
              (if strict then Inl (TypeError (''Cannot assign to read only property '' @ p))
               else Inr (), w1)"
    using a by (auto simp: assign_def reject_def split: option.splits slot.splits)
  moreover have "\<forall>p s. \<exists>m. Object_defineProperty a p s w1 = (Inl (TypeError m), w1)"
    using defineProperty_frozen [OF a(2,3)] by blast
  ultimately show ?thesis using a by blast
qed

text \<open>The bag of the example constructor: a strict assignment to \<^verbatim>\<open>config\<close>, a sloppy
  assignment of a new property, a definition of a new property.\<close>

theorem bag_immutable_witness:
  "wf_world demo_world \<and>
   Storage_getInjections env_dev demo_ctor (Obj 7) demo_world = (Inr (Obj 4), demo_bag) \<and>
   (\<exists>ob. objects demo_bag 4 = Some ob \<and> frozen ob) \<and>
   assign True (Obj 4) ''config'' (Num 1) demo_bag =
     (Inl (TypeError (''Cannot assign to read only property '' @ ''config'')), demo_bag) \<and>
   assign False (Obj 4) ''extra'' (Num 1) demo_bag = (Inr (), demo_bag) \<and>
   (\<exists>m. Object_defineProperty 4 ''extra'' (DataSlot (Num 1)) demo_bag = (Inl (TypeError m), demo_bag))"
proof -
  from bag_immutable [OF wf_demo_world demo_getInjections]
  obtain a ob where a: "Obj 4 = Obj a" "objects demo_bag a = Some ob" "frozen ob"
    and s: "\<forall>strict p v. assign strict (Obj 4) p v demo_bag =
              (if strict then Inl (TypeError (''Cannot assign to read only property '' @ p))
               else Inr (), demo_bag)"
    and d: "\<forall>p s. \<exists>m. Object_defineProperty a p s demo_bag = (Inl (TypeError m), demo_bag)"
    by blast
  have a4: "a = 4" using a(1) by simp
  have 1: "\<exists>ob. objects demo_bag 4 = Some ob \<and> frozen ob" using a a4 by blast
  have 2: "assign True (Obj 4) ''config'' (Num 1) demo_bag =
     (Inl (TypeError (''Cannot assign to read only property '' @ ''config'')), demo_bag)"
    using s by simp
  have 3: "assign False (Obj 4) ''extra'' (Num 1) demo_bag = (Inr (), demo_bag)"
    using s by simp
  have 4: "\<exists>m. Object_defineProperty 4 ''extra'' (DataSlot (Num 1)) demo_bag = (Inl (TypeError m), demo_bag)"
    using d a4 by blast
  show ?thesis using wf_demo_world demo_getInjections 1 2 3 4 by blast
qed

subsection \<open>C9: cache coherence\<close>

text \<open>
  Claim C9. In a state that satisfies the invariant of the two weak maps (every
  reachable state does: lemma \<open>reachable_invariant\<close>), once \<open>getInjected(owner)\<close> has
  returned a function, the injections map holds a bag for that owner, a following
  \<open>getInjections(owner)\<close> returns that very bag and changes nothing, and the function
  returned is a function object bound to that bag.
\<close>

theorem cache_coherence:
  assumes wf: "wf_world w" and g: "Storage_getInjected env ct owner w = (Inr f, w1)"
  shows "\<exists>b a fr. injections w1 (cid ct, owner) = Some b \<and>
           Storage_getInjections env ct owner w1 = (Inr b, w1) \<and>
           f = Fun a \<and> funcs w1 a = Some fr \<and> fthis fr = b"
proof -
  have wf1: "wf_world w1" using Storage_getInjected_wf [OF wf, of env ct owner] g by simp
  from getInjected_stored [OF g] have key: "is_weak_key owner" and "injected w1 (cid ct, owner) = Some f"
    by simp_all
  with wf1 obtain a fr where a: "f = Fun a" "funcs w1 a = Some fr"
    "injections w1 (cid ct, owner) = Some (fthis fr)" unfolding wf_world_def by blast
  with wf1 obtain a' where "fthis fr = Obj a'" unfolding wf_world_def by blast
  then have "truthy (WeakMap_get (injections w1) (cid ct) owner)"
    and "WeakMap_get (injections w1) (cid ct) owner = fthis fr"
    using a key by (simp_all add: WeakMap_get_def)
  then have "Storage_getInjections env ct owner w1 = (Inr (fthis fr), w1)"
    using getInjected_alive [OF g] by (simp add: getInjections_cached)
  then show ?thesis using a by blast
qed

text \<open>The example constructor after \<open>new f(O)\<close>.\<close>

theorem cache_coherence_witness:
  "wf_world demo_world \<and>
   Storage_getInjected env_dev demo_ctor (Obj 7) demo_world = (Inr (Fun 5), demo_cached) \<and>
   (\<exists>b a fr. injections demo_cached (cid demo_ctor, Obj 7) = Some b \<and>
      Storage_getInjections env_dev demo_ctor (Obj 7) demo_cached = (Inr b, demo_cached) \<and>
      Fun 5 = Fun a \<and> funcs demo_cached a = Some fr \<and> fthis fr = b)"
proof -
  have g: "Storage_getInjected env_dev demo_ctor (Obj 7) demo_world = (Inr (Fun 5), demo_cached)"
    using demo_new by (simp add: ctor_new_eq first_arg_def)
  from cache_coherence [OF wf_demo_world g] wf_demo_world g show ?thesis by blast
qed

subsection \<open>C10: injectable tagging\<close>

text \<open>
  Claim C10. The constructor \<open>constructorFor\<close> returns carries the marker in the state
  it is returned in. For every builder, \<open>into\<close> and \<open>build\<close> return a constructor
  (the assertion of \<open>helperFor\<close> holds) that carries the marker; and in every state whose
  marker set contains that of the state they return, \<open>helperFor\<close> and \<open>createHelper\<close>
  on that constructor go past their assertion: \<open>helperFor\<close> registers the manager, and
  \<open>createHelper\<close> is \<open>new constructor(owner)\<close> and nothing else. (No operation of the
  package removes a marker: lemma \<open>steps_INJECTABLE\<close>.)
\<close>

theorem injectable_tagging:
  "isInjectable (snd (constructorFor pol ps fin name w)) (fst (constructorFor pol ps fin name w)) \<and>
   (builders w b = Some ps \<longrightarrow>
      (\<exists>ct w1. Builder_into pol b name fn w = (Inr ct, w1) \<and> isInjectable w1 ct \<and>
         (\<forall>w2. INJECTABLE w1 \<subseteq> INJECTABLE w2 \<longrightarrow>
            helperFor ct w2 = (Inr ct, w2\<lparr>managers := insert (cid ct) (managers w2)\<rparr>) \<and>
            (\<forall>env owner a. createHelper env owner ct a w2 =
               (case ctor_new env ct [owner] w2 of
                  (Inl e, w3) \<Rightarrow> (Inl e, w3)
                | (Inr f, w3) \<Rightarrow> (Inr \<lparr>st_fn = f, st_args = a\<rparr>, w3))))) \<and>
      (\<exists>ct w1. Builder_build pol b name cb w = (Inr ct, w1) \<and> isInjectable w1 ct \<and>
         (\<forall>w2. INJECTABLE w1 \<subseteq> INJECTABLE w2 \<longrightarrow>
            helperFor ct w2 = (Inr ct, w2\<lparr>managers := insert (cid ct) (managers w2)\<rparr>) \<and>
            (\<forall>env owner a. createHelper env owner ct a w2 =
               (case ctor_new env ct [owner] w2 of
                  (Inl e, w3) \<Rightarrow> (Inl e, w3)
                | (Inr f, w3) \<Rightarrow> (Inr \<lparr>st_fn = f, st_args = a\<rparr>, w3))))))"
proof (intro conjI impI)
  show "isInjectable (snd (constructorFor pol ps fin name w)) (fst (constructorFor pol ps fin name w))"
    by (simp add: constructorFor_def isInjectable_def)
next
  assume b: "builders w b = Some ps"
  have pass: "\<And>ct w1. isInjectable w1 ct \<Longrightarrow>
      \<forall>w2. INJECTABLE w1 \<subseteq> INJECTABLE w2 \<longrightarrow>
      helperFor ct w2 = (Inr ct, w2\<lparr>managers := insert (cid ct) (managers w2)\<rparr>) \<and>
      (\<forall>env owner a. createHelper env owner ct a w2 =
               (case ctor_new env ct [owner] w2 of
                  (Inl e, w3) \<Rightarrow> (Inl e, w3)
                | (Inr f, w3) \<Rightarrow> (Inr \<lparr>st_fn = f, st_args = a\<rparr>, w3)))"
  proof (intro allI impI)
    fix ct :: ctor and w1 w2 :: world
    assume "isInjectable w1 ct" "INJECTABLE w1 \<subseteq> INJECTABLE w2"
    then have "isInjectable w2 ct" by (auto simp: isInjectable_def)
    then show "helperFor ct w2 = (Inr ct, w2\<lparr>managers := insert (cid ct) (managers w2)\<rparr>) \<and>
      (\<forall>env owner a. createHelper env owner ct a w2 =
               (case ctor_new env ct [owner] w2 of
                  (Inl e, w3) \<Rightarrow> (Inl e, w3)
                | (Inr f, w3) \<Rightarrow> (Inr \<lparr>st_fn = f, st_args = a\<rparr>, w3)))"
      by (simp add: helperFor_def createHelper_def assert_def)
  qed
  let ?ci = "\<lparr>cid = nxt w, c_polaris = pol, c_properties = ps, c_finalize = Into fn, c_name = name\<rparr>"
  let ?cb = "\<lparr>cid = nxt w, c_polaris = pol, c_properties = ps, c_finalize = Build cb, c_name = name\<rparr>"
  let ?w1 = "w\<lparr>nxt := Suc (nxt w), constructors := (constructors w)(nxt w \<mapsto> ?ci),
        STORAGE := insert (nxt w) (STORAGE w),
        INJECTABLE := insert (nxt w) (INJECTABLE w), managers := insert (nxt w) (managers w)\<rparr>"
  let ?w2 = "w\<lparr>nxt := Suc (nxt w), constructors := (constructors w)(nxt w \<mapsto> ?cb),
        STORAGE := insert (nxt w) (STORAGE w),
        INJECTABLE := insert (nxt w) (INJECTABLE w), managers := insert (nxt w) (managers w)\<rparr>"
  have i: "Builder_into pol b name fn w = (Inr ?ci, ?w1)" by (rule Builder_into_eq [OF b])
  have ii: "isInjectable ?w1 ?ci" by (simp add: isInjectable_def)
  show "\<exists>ct w1. Builder_into pol b name fn w = (Inr ct, w1) \<and> isInjectable w1 ct \<and>
         (\<forall>w2. INJECTABLE w1 \<subseteq> INJECTABLE w2 \<longrightarrow>
            helperFor ct w2 = (Inr ct, w2\<lparr>managers := insert (cid ct) (managers w2)\<rparr>) \<and>
            (\<forall>env owner a. createHelper env owner ct a w2 =
               (case ctor_new env ct [owner] w2 of
                  (Inl e, w3) \<Rightarrow> (Inl e, w3)
                | (Inr f, w3) \<Rightarrow> (Inr \<lparr>st_fn = f, st_args = a\<rparr>, w3))))"
    apply (rule exI [of _ ?ci], rule exI [of _ ?w1])
    apply (intro conjI)
      apply (rule i)
     apply (rule ii)
    apply (rule pass [OF ii])
    done
  have j: "Builder_build pol b name cb w = (Inr ?cb, ?w2)" by (rule Builder_build_eq [OF b])
  have jj: "isInjectable ?w2 ?cb" by (simp add: isInjectable_def)
  show "\<exists>ct w1. Builder_build pol b name cb w = (Inr ct, w1) \<and> isInjectable w1 ct \<and>
         (\<forall>w2. INJECTABLE w1 \<subseteq> INJECTABLE w2 \<longrightarrow>
            helperFor ct w2 = (Inr ct, w2\<lparr>managers := insert (cid ct) (managers w2)\<rparr>) \<and>
            (\<forall>env owner a. createHelper env owner ct a w2 =
               (case ctor_new env ct [owner] w2 of
                  (Inl e, w3) \<Rightarrow> (Inl e, w3)
                | (Inr f, w3) \<Rightarrow> (Inr \<lparr>st_fn = f, st_args = a\<rparr>, w3))))"
    apply (rule exI [of _ ?cb], rule exI [of _ ?w2])
    apply (intro conjI)
      apply (rule j)
     apply (rule jj)
    apply (rule pass [OF jj])
    done
qed

text \<open>The default builder, finalized with \<open>into\<close> and with \<open>build\<close>.\<close>

theorem injectable_tagging_witness:
  "builders init_world inject = Some [] \<and>
   (\<exists>ct w1. Builder_into False inject ''f'' f_body init_world = (Inr ct, w1) \<and> isInjectable w1 ct \<and>
      helperFor ct w1 = (Inr ct, w1\<lparr>managers := insert (cid ct) (managers w1)\<rparr>)) \<and>
   (\<exists>ct w1. Builder_build False inject [] one_callback init_world = (Inr ct, w1) \<and>
      isInjectable w1 ct)"
proof -
  have h: "builders init_world inject = Some []"
    by (simp add: init_world_def inject_def new_Builder_def empty_world_def)
  note t = injectable_tagging [of False "[]" "Into f_body" "''f''" init_world inject f_body
      one_callback]
  have 1: "\<exists>ct w1. Builder_into False inject ''f'' f_body init_world = (Inr ct, w1) \<and> isInjectable w1 ct \<and>
      helperFor ct w1 = (Inr ct, w1\<lparr>managers := insert (cid ct) (managers w1)\<rparr>)"
    using t h by blast
  note t2 = injectable_tagging [of False "[]" "Into f_body" "[]" init_world inject f_body
      one_callback]
  have 2: "\<exists>ct w1. Builder_build False inject [] one_callback init_world = (Inr ct, w1) \<and>
      isInjectable w1 ct"
    using t2 h by blast
  show ?thesis using h 1 2 by blast
qed

end
